theory Spec2Isabelle
  imports Main
begin

section \<open>Strings\<close>

text \<open>
  The program is Python 3: a \<open>str\<close> is a sequence of Unicode code points, and the
  library functions it calls (\<open>strip\<close>, \<open>splitlines\<close>, \<open>lower\<close>, the \<open>re\<close>
  classes) work on code points. A character is therefore a natural number (its
  code point) and a string a list of them. \<open>str\<close> turns an ASCII literal into
  such a list.
\<close>

type_synonym pychar = nat
type_synonym pystr = "pychar list"

definition str :: "string \<Rightarrow> pystr" where
  "str s = map of_char s"

text \<open>\<open>s.startswith(t)\<close>\<close>

definition startswith :: "pystr \<Rightarrow> pystr \<Rightarrow> bool" where
  "startswith s t = (take (length t) s = t)"

text \<open>
  \<open>str.isspace\<close> on one character: the code points that \<open>strip()\<close> and
  \<open>rstrip()\<close> without argument remove.
\<close>

definition is_space :: "pychar \<Rightarrow> bool" where
  "is_space c = (c \<in> {9, 10, 11, 12, 13, 28, 29, 30, 31, 32, 133, 160, 5760,
      8192, 8193, 8194, 8195, 8196, 8197, 8198, 8199, 8200, 8201, 8202,
      8232, 8233, 8239, 8287, 12288})"

definition lstrip_by :: "(pychar \<Rightarrow> bool) \<Rightarrow> pystr \<Rightarrow> pystr" where
  "lstrip_by P s = dropWhile P s"

definition rstrip_by :: "(pychar \<Rightarrow> bool) \<Rightarrow> pystr \<Rightarrow> pystr" where
  "rstrip_by P s = rev (dropWhile P (rev s))"

definition strip_by :: "(pychar \<Rightarrow> bool) \<Rightarrow> pystr \<Rightarrow> pystr" where
  "strip_by P s = rstrip_by P (lstrip_by P s)"

text \<open>\<open>s.strip()\<close>, \<open>s.rstrip()\<close> and \<open>s.strip("-")\<close>\<close>

definition strip :: "pystr \<Rightarrow> pystr" where
  "strip s = strip_by is_space s"

definition rstrip :: "pystr \<Rightarrow> pystr" where
  "rstrip s = rstrip_by is_space s"

definition strip_hyphen :: "pystr \<Rightarrow> pystr" where
  "strip_hyphen s = strip_by (\<lambda>c. c = 45) s"

text \<open>\<open>sep.join(lines)\<close> with \<open>sep = "\n"\<close>\<close>

fun join_nl :: "pystr list \<Rightarrow> pystr" where
  "join_nl [] = []"
| "join_nl [l] = l"
| "join_nl (l # ls) = l @ [10] @ join_nl ls"

text \<open>
  The line boundaries of \<open>str.splitlines\<close>: \<open>\n\<close>, \<open>\v\<close>, \<open>\f\<close>, \<open>\r\<close>, the
  separators \<open>\x1c\<close>, \<open>\x1d\<close>, \<open>\x1e\<close>, \<open>\x85\<close>, and U+2028, U+2029.
\<close>

definition is_linebreak :: "pychar \<Rightarrow> bool" where
  "is_linebreak c = (c \<in> {10, 11, 12, 13, 28, 29, 30, 133, 8232, 8233})"

text \<open>
  \<open>s.splitlines()\<close>: the text up to each line boundary, the boundary dropped
  (\<open>\r\n\<close> counts as one), and no empty last line after a final boundary.
\<close>

function splitlines :: "pystr \<Rightarrow> pystr list" where
  "splitlines s =
     (if s = [] then []
      else takeWhile (\<lambda>c. \<not> is_linebreak c) s #
        (case dropWhile (\<lambda>c. \<not> is_linebreak c) s of
           [] \<Rightarrow> []
         | c # r \<Rightarrow> splitlines (if c = 13 \<and> take 1 r = [10] then drop 1 r else r)))"
  by pat_completeness auto
termination
proof (relation "measure length")
  show "wf (measure length)" by simp
next
  fix s :: pystr and c :: pychar and r :: pystr
  assume "s \<noteq> []" and d: "dropWhile (\<lambda>c. \<not> is_linebreak c) s = c # r"
  have "length (dropWhile (\<lambda>c. \<not> is_linebreak c) s) \<le> length s"
    by (rule length_dropWhile_le)
  with d have "length r < length s" by simp
  then have "length (drop 1 r) < length s" "length r < length s" by simp_all
  then show "(if c = 13 \<and> take 1 r = [10] then drop 1 r else r, s) \<in> measure length"
    by (simp del: length_drop)
qed

declare splitlines.simps [simp del]

text \<open>
  Reading a file in text mode translates \<open>\r\n\<close> and \<open>\r\<close> to \<open>\n\<close> (universal
  newlines, the default of \<open>open\<close> and so of \<open>Path.read_text\<close>).
\<close>

fun universal_newlines :: "pystr \<Rightarrow> pystr" where
  "universal_newlines [] = []"
| "universal_newlines [c] = (if c = 13 then [10] else [c])"
| "universal_newlines (c # d # s) =
     (if c = 13 \<and> d = 10 then 10 # universal_newlines s
      else if c = 13 then 10 # universal_newlines (d # s)
      else c # universal_newlines (d # s))"

text \<open>
  \<open>str.lower\<close>, character by character. The table is exact on ASCII and on the
  two other code points whose lowercase form contains an ASCII character:
  U+0130 (capital I with dot above) becomes \<open>i\<close> followed by U+0307, and U+212A
  (the Kelvin sign) becomes \<open>k\<close>. Every other code point beyond ASCII is left as
  it is; Python maps the cased ones among them to code points that are beyond
  ASCII as well. The program only calls \<open>lower\<close> on ASCII text.
\<close>

definition lower_char :: "pychar \<Rightarrow> pystr" where
  "lower_char c =
     (if 65 \<le> c \<and> c \<le> 90 then [c + 32]
      else if c = 304 then [105, 775]
      else if c = 8490 then [107]
      else [c])"

definition lower :: "pystr \<Rightarrow> pystr" where
  "lower s = concat (map lower_char s)"

section \<open>Record grammar\<close>

text \<open>
  The tail of both patterns: \<open>.*$\<close> at the rest of the line. The dot matches any
  character but the newline, and \<open>$\<close> matches at the end of the string or just
  before a newline that is its last character.
\<close>

definition dot_star_eol :: "pystr \<Rightarrow> pystr option" where
  "dot_star_eol t =
     (if 10 \<notin> set t then Some t
      else if last t = 10 \<and> 10 \<notin> set (butlast t) then Some (butlast t)
      else None)"

text \<open>
  \<open>ENTRY_HEADER_RE = ^- \[(?P<ts>[^\]]+)\] (?P<title>.+)$\<close>, with \<open>match\<close>:
  the groups \<open>(ts, title)\<close>, or \<open>None\<close>. The class \<open>[^\]]\<close> cannot run over a
  closing bracket, so \<open>ts\<close> is the text up to the first one.
\<close>

definition header_match :: "pystr \<Rightarrow> (pystr \<times> pystr) option" where
  "header_match line =
     (if startswith line (str ''- ['') then
        let rest = drop 3 line;
            ts = takeWhile (\<lambda>c. c \<noteq> 93) rest;
            after = dropWhile (\<lambda>c. c \<noteq> 93) rest
        in if ts \<noteq> [] \<and> startswith after (str ''] '') then
             (case dot_star_eol (drop 2 after) of
                None \<Rightarrow> None
              | Some title \<Rightarrow> if title = [] then None else Some (ts, title))
           else None
      else None)"

text \<open>The class \<open>[A-Za-z0-9_]\<close>\<close>

definition is_key_char :: "pychar \<Rightarrow> bool" where
  "is_key_char c = ((65 \<le> c \<and> c \<le> 90) \<or> (97 \<le> c \<and> c \<le> 122) \<or> (48 \<le> c \<and> c \<le> 57) \<or> c = 95)"

text \<open>
  \<open>KV_RE = ^  - (?P<key>[A-Za-z0-9_]+): (?P<value>.*)$\<close>, with \<open>match\<close>: the
  groups \<open>(key, value)\<close>, or \<open>None\<close>. The colon is outside the key's class, so the
  key is the longest run of key characters.
\<close>

definition kv_match :: "pystr \<Rightarrow> (pystr \<times> pystr) option" where
  "kv_match line =
     (if startswith line (str ''  - '') then
        let rest = drop 4 line;
            key = takeWhile is_key_char rest;
            after = dropWhile is_key_char rest
        in if key \<noteq> [] \<and> startswith after (str '': '') then
             (case dot_star_eol (drop 2 after) of
                None \<Rightarrow> None
              | Some v \<Rightarrow> Some (key, v))
           else None
      else None)"

section \<open>Records and the document parser\<close>

record entry =
  header_index :: nat
  end_index :: nat
  timestamp :: pystr
  title :: pystr
  fingerprint :: "pystr option"
  source :: "pystr option"
  status :: "pystr option"
  details :: "pystr option"
  review_note :: "pystr option"

text \<open>
  The inner \<open>while\<close> of \<open>parse_entries\<close>: from \<open>j\<close>, the first index that is a
  header line, or the length of the document.
\<close>

function scan_end :: "pystr list \<Rightarrow> nat \<Rightarrow> nat" where
  "scan_end lines j =
     (if j < length lines \<and> header_match (lines ! j) = None
      then scan_end lines (j + 1) else j)"
  by pat_completeness auto
termination
  by (relation "measure (\<lambda>(lines, j). length lines - j)") auto

declare scan_end.simps [simp del]

text \<open>The \<open>if\<close>/\<open>elif\<close> chain on the key of a field line.\<close>

definition assign_kv :: "pystr \<Rightarrow> pystr \<Rightarrow> entry \<Rightarrow> entry" where
  "assign_kv key v e =
     (if key = str ''fingerprint'' then e\<lparr>fingerprint := Some v\<rparr>
      else if key = str ''source'' then e\<lparr>source := Some v\<rparr>
      else if key = str ''status'' then e\<lparr>status := Some v\<rparr>
      else if key = str ''details'' then e\<lparr>details := Some v\<rparr>
      else if key = str ''reviewNote'' then e\<lparr>review_note := Some v\<rparr>
      else e)"

definition field_step :: "pystr list \<Rightarrow> nat \<Rightarrow> entry \<Rightarrow> entry" where
  "field_step lines k e =
     (case kv_match (lines ! k) of None \<Rightarrow> e | Some (key, v) \<Rightarrow> assign_kv key v e)"

text \<open>
  The \<open>for k in range(i + 1, j)\<close> loop and the construction of the entry: the
  five attributes start as \<open>None\<close> and each field line overwrites its own.
\<close>

definition make_entry :: "pystr list \<Rightarrow> nat \<Rightarrow> nat \<Rightarrow> pystr \<Rightarrow> pystr \<Rightarrow> entry" where
  "make_entry lines i j ts ttl =
     fold (field_step lines) [i + 1 ..< j]
       \<lparr>header_index = i, end_index = j, timestamp = ts, title = ttl,
        fingerprint = None, source = None, status = None, details = None,
        review_note = None\<rparr>"

function parse_loop :: "pystr list \<Rightarrow> nat \<Rightarrow> entry list \<Rightarrow> entry list" where
  "parse_loop lines i entries =
     (if i < length lines then
        (case header_match (lines ! i) of
           None \<Rightarrow> parse_loop lines (i + 1) entries
         | Some (ts, ttl) \<Rightarrow>
             parse_loop lines (scan_end lines (i + 1))
               (entries @ [make_entry lines i (scan_end lines (i + 1)) ts ttl]))
      else entries)"
  by pat_completeness auto
termination
proof (relation "measure (\<lambda>(lines, i, entries). length lines - i)")
  show "wf (measure (\<lambda>(lines, i, entries). length lines - i))" by simp
next
  fix lines :: "pystr list" and i :: nat and entries :: "entry list"
  assume "i < length lines"
  then show "((lines, i + 1, entries), (lines, i, entries))
      \<in> measure (\<lambda>(lines, i, entries). length lines - i)" by simp
next
  fix lines :: "pystr list" and i :: nat and entries :: "entry list"
    and x2 :: "pystr \<times> pystr" and x y
  assume less: "i < length lines"
  have ge: "j \<le> scan_end ls j" for ls j
  proof (induction ls j rule: scan_end.induct)
    case (1 ls j)
    show ?case
    proof (cases "j < length ls \<and> header_match (ls ! j) = None")
      case True
      with 1 have "j + 1 \<le> scan_end ls (j + 1)" by simp
      with True show ?thesis by (subst scan_end.simps) simp
    next
      case False
      then show ?thesis by (subst scan_end.simps) auto
    qed
  qed
  from less ge [of "i + 1" lines]
  show "((lines, scan_end lines (i + 1),
        entries @ [make_entry lines i (scan_end lines (i + 1)) x y]), (lines, i, entries))
      \<in> measure (\<lambda>(lines, i, entries). length lines - i)" by simp
qed

declare parse_loop.simps [simp del]

definition parse_entries :: "pystr list \<Rightarrow> entry list" where
  "parse_entries lines = parse_loop lines 0 []"

section \<open>Record store\<close>

text \<open>
  The failures of the program, named as the specification's taxonomy names them.
  \<open>NotFound\<close>: \<open>FileNotFoundError\<close> of \<open>load_lines\<close> and the \<open>ValueError\<close> of
  \<open>find_entry_by_fingerprint\<close>. \<open>InvalidInput\<close>: the \<open>ValueError\<close> of
  \<open>entries_path\<close>, \<open>skill_dir\<close> and \<open>safe_slug\<close>. \<open>InvalidState\<close> and
  \<open>DuplicateResource\<close>: the two \<open>ValueError\<close> of \<open>cmd_promote\<close>. \<open>IOFailure\<close>: an
  \<open>OSError\<close> of the file system. \<open>IndexError\<close>: a list read out of range.
\<close>

datatype error =
  NotFound | InvalidInput | InvalidState | DuplicateResource | IOFailure | IndexError

text \<open>
  \<open>find_entry_by_fingerprint\<close>: the \<open>for\<close> loop returns at the first entry whose
  fingerprint equals the argument; an absent fingerprint (\<open>None\<close>) equals no string.
\<close>

fun find_entry_by_fingerprint :: "entry list \<Rightarrow> pystr \<Rightarrow> error + entry" where
  "find_entry_by_fingerprint [] fp = Inl NotFound"
| "find_entry_by_fingerprint (e # es) fp =
     (if fingerprint e = Some fp then Inr e else find_entry_by_fingerprint es fp)"

text \<open>
  The \<open>for i in range(...)\<close> loop of \<open>update_or_insert_kv\<close> over the indices it
  visits: the first index whose line starts with the target, \<open>None\<close> when the loop
  runs to its end, and \<open>IndexError\<close> when \<open>lines[i]\<close> is read past the end of the
  list.
\<close>

fun find_target :: "pystr list \<Rightarrow> pystr \<Rightarrow> nat list \<Rightarrow> error + nat option" where
  "find_target lines target [] = Inr None"
| "find_target lines target (i # is) =
     (if i < length lines then
        (if startswith (lines ! i) target then Inr (Some i)
         else find_target lines target is)
      else Inl IndexError)"

definition kv_target :: "pystr \<Rightarrow> pystr" where
  "kv_target key = str ''  - '' @ key @ str '': ''"

text \<open>
  \<open>update_or_insert_kv\<close> mutates the list it is given; the model returns the new
  list. \<open>lines.insert(n, x)\<close> with \<open>n\<close> past the end appends.
\<close>

definition update_or_insert_kv ::
    "pystr list \<Rightarrow> entry \<Rightarrow> pystr \<Rightarrow> pystr \<Rightarrow> error + pystr list" where
  "update_or_insert_kv lines e key v =
     (case find_target lines (kv_target key) [header_index e + 1 ..< end_index e] of
        Inl err \<Rightarrow> Inl err
      | Inr (Some i) \<Rightarrow> Inr (lines[i := kv_target key @ v])
      | Inr None \<Rightarrow>
          Inr (take (end_index e) lines @ [kv_target key @ v] @ drop (end_index e) lines))"

section \<open>Files\<close>

text \<open>
  A path is the list of its components below the repository root, and the file
  system maps a path to what is there: a file with its text, or a directory.
  Files hold text (the UTF-8 coding of \<open>read_text\<close> and \<open>write_text\<close> is taken
  as given), and the platform is POSIX, where writing in text mode leaves \<open>\n\<close>
  as it is.
\<close>

type_synonym path = "pystr list"

datatype node = File pystr | Dir

type_synonym fs = "path \<Rightarrow> node option"

text \<open>\<open>Path.exists\<close>\<close>

definition exists_path :: "fs \<Rightarrow> path \<Rightarrow> bool" where
  "exists_path fs p = (fs p \<noteq> None)"

text \<open>\<open>Path.read_text\<close>: a missing file or a directory is an \<open>OSError\<close>.\<close>

definition read_text :: "fs \<Rightarrow> path \<Rightarrow> error + pystr" where
  "read_text fs p =
     (case fs p of
        Some (File c) \<Rightarrow> Inr (universal_newlines c)
      | Some Dir \<Rightarrow> Inl IOFailure
      | None \<Rightarrow> Inl IOFailure)"

text \<open>
  \<open>Path.write_text\<close>: replaces the text of a file, or creates the file in an
  existing directory; anything else is an \<open>OSError\<close>.
\<close>

definition write_text :: "fs \<Rightarrow> path \<Rightarrow> pystr \<Rightarrow> error + fs" where
  "write_text fs p c =
     (case fs p of
        Some (File old) \<Rightarrow> Inr (fs(p \<mapsto> File c))
      | Some Dir \<Rightarrow> Inl IOFailure
      | None \<Rightarrow>
          if p \<noteq> [] \<and> fs (butlast p) = Some Dir then Inr (fs(p \<mapsto> File c))
          else Inl IOFailure)"

text \<open>
  \<open>Path.mkdir(parents=True, exist_ok=True)\<close>, over the ancestors of the path
  from the root down and the path itself: a directory that is there is kept, a
  missing one is created, and a file in the way is an \<open>OSError\<close>.
\<close>

fun mkdir_each :: "fs \<Rightarrow> path list \<Rightarrow> error + fs" where
  "mkdir_each fs [] = Inr fs"
| "mkdir_each fs (d # ds) =
     (case fs d of
        Some (File c) \<Rightarrow> Inl IOFailure
      | Some Dir \<Rightarrow> mkdir_each fs ds
      | None \<Rightarrow> mkdir_each (fs(d \<mapsto> Dir)) ds)"

definition ancestors_and_self :: "path \<Rightarrow> path list" where
  "ancestors_and_self p = map (\<lambda>n. take n p) [0 ..< length p + 1]"

definition mkdir_parents :: "fs \<Rightarrow> path \<Rightarrow> error + fs" where
  "mkdir_parents fs p = mkdir_each fs (ancestors_and_self p)"

definition entries_path :: "pystr \<Rightarrow> error + path" where
  "entries_path src =
     (if src = str ''manual'' then Inr [str ''learning'', str ''manual'', str ''entries.md'']
      else if src = str ''generated'' then
        Inr [str ''learning'', str ''generated'', str ''entries.md'']
      else Inl InvalidInput)"

definition load_lines :: "fs \<Rightarrow> path \<Rightarrow> error + pystr list" where
  "load_lines fs p =
     (if \<not> exists_path fs p then Inl NotFound
      else case read_text fs p of
             Inl err \<Rightarrow> Inl err
           | Inr text \<Rightarrow> Inr (splitlines text))"

text \<open>The text that \<open>save_lines\<close> writes: \<open>"\n".join(lines).rstrip() + "\n"\<close>\<close>

definition saved_text :: "pystr list \<Rightarrow> pystr" where
  "saved_text lines = rstrip (join_nl lines) @ [10]"

definition save_lines :: "fs \<Rightarrow> path \<Rightarrow> pystr list \<Rightarrow> error + fs" where
  "save_lines fs p lines = write_text fs p (saved_text lines)"

section \<open>Review workflow\<close>


section \<open>Promotion workflow\<close>

text \<open>The class \<open>[a-zA-Z0-9-]\<close> of \<open>safe_slug\<close>\<close>

definition is_slug_char :: "pychar \<Rightarrow> bool" where
  "is_slug_char c =
     ((97 \<le> c \<and> c \<le> 122) \<or> (65 \<le> c \<and> c \<le> 90) \<or> (48 \<le> c \<and> c \<le> 57) \<or> c = 45)"

text \<open>
  \<open>re.sub(r"[^...]+", "-", s)\<close> for a class given by its membership test: every
  maximal run of characters outside the class becomes one hyphen. A character
  outside the class is dropped when its successor is outside too, and is
  replaced by the hyphen when it ends its run.
\<close>

fun sub_runs :: "(pychar \<Rightarrow> bool) \<Rightarrow> pystr \<Rightarrow> pystr" where
  "sub_runs ok [] = []"
| "sub_runs ok [c] = (if ok c then [c] else [45])"
| "sub_runs ok (c # d # s) =
     (if ok c then c # sub_runs ok (d # s)
      else if ok d then 45 # sub_runs ok (d # s)
      else sub_runs ok (d # s))"

definition safe_slug :: "pystr \<Rightarrow> error + pystr" where
  "safe_slug v =
     (let slug = lower (strip_hyphen (sub_runs is_slug_char (strip v)))
      in if slug = [] then Inl InvalidInput else Inr slug)"

definition skill_dir :: "pystr \<Rightarrow> pystr \<Rightarrow> error + path" where
  "skill_dir target slug =
     (if target = str ''skills'' then Inr [str ''cursor'', str ''skills'', slug]
      else if target = str ''skills-cursor'' then Inr [str ''cursor'', str ''skills-cursor'', slug]
      else Inl InvalidInput)"

text \<open>The text of the artifact, the template of \<open>create_skill_file\<close>.\<close>

definition skill_body :: "pystr \<Rightarrow> pystr \<Rightarrow> pystr \<Rightarrow> pystr \<Rightarrow> pystr \<Rightarrow> pystr" where
  "skill_body slug description ttl dtl fp =
     str ''---'' @ [10] @
     str ''name: '' @ slug @ [10] @
     str ''description: '' @ description @ [10] @
     str ''---'' @ [10] @
     [10] @
     str ''# '' @ ttl @ [10] @
     [10] @
     str ''Use this skill when this pattern applies in daily work.'' @ [10] @
     [10] @
     str ''## Guidance'' @ [10] @
     [10] @
     str ''- Keep the implementation concise and consistent with project conventions.'' @ [10] @
     str ''- Apply the pattern intentionally; avoid using it where it does not fit.'' @ [10] @
     str ''- Add examples in this skill over time as usage matures.'' @ [10] @
     [10] @
     str ''## Source'' @ [10] @
     [10] @
     str ''- learning fingerprint: '' @ [96] @ fp @ [96] @ [10] @
     str ''- original details: '' @ dtl @ [10]"

definition create_skill_file ::
    "fs \<Rightarrow> path \<Rightarrow> pystr \<Rightarrow> pystr \<Rightarrow> pystr \<Rightarrow> pystr \<Rightarrow> pystr \<Rightarrow> error + fs" where
  "create_skill_file fs p slug description ttl dtl fp =
     write_text fs p (skill_body slug description ttl dtl fp)"

text \<open>\<open>destination_file.relative_to(repo_dir)\<close> in an f-string: the components joined by \<open>/\<close>\<close>

fun posix_path :: "path \<Rightarrow> pystr" where
  "posix_path [] = str ''.''"
| "posix_path [c] = c"
| "posix_path (c # cs) = c @ [47] @ posix_path cs"

text \<open>
  The last part of \<open>cmd_promote\<close>, after the artifact is written: the document is
  loaded and parsed again, the record found again and marked, and the document
  saved.
\<close>

definition mark_promoted :: "fs \<Rightarrow> path \<Rightarrow> pystr \<Rightarrow> path \<Rightarrow> (error + unit) \<times> fs" where
  "mark_promoted fs2 entries_file fp destination_file =
     (case load_lines fs2 entries_file of Inl err \<Rightarrow> (Inl err, fs2) | Inr lines \<Rightarrow>
     (case find_entry_by_fingerprint (parse_entries lines) fp of
        Inl err \<Rightarrow> (Inl err, fs2) | Inr e \<Rightarrow>
     (case update_or_insert_kv lines e (str ''status'') (str ''promoted'') of
        Inl err \<Rightarrow> (Inl err, fs2) | Inr lines1 \<Rightarrow>
     (case update_or_insert_kv lines1 e (str ''reviewNote'')
             (str ''Promoted to '' @ posix_path destination_file) of
        Inl err \<Rightarrow> (Inl err, fs2) | Inr lines2 \<Rightarrow>
     (case save_lines fs2 entries_file lines2 of
        Inl err \<Rightarrow> (Inl err, fs2) | Inr fs3 \<Rightarrow> (Inr (), fs3))))))"

text \<open>
  The middle part of \<open>cmd_promote\<close>, once the record has passed the status check
  and the slug and the target are resolved: the directory is made, the existence
  of the artifact checked, and the artifact written.
\<close>

definition write_artifact ::
    "fs \<Rightarrow> path \<Rightarrow> pystr \<Rightarrow> entry \<Rightarrow> pystr \<Rightarrow> pystr \<Rightarrow> path \<Rightarrow> path
      \<Rightarrow> (error + unit) \<times> fs" where
  "write_artifact fs entries_file fp e normalized_slug description destination_dir
       destination_file =
     (case mkdir_parents fs destination_dir of
        Inl err \<Rightarrow> (Inl err, fs) | Inr fs1 \<Rightarrow>
     (if exists_path fs1 destination_file then (Inl DuplicateResource, fs1) else
     (case create_skill_file fs1 destination_file normalized_slug
             (if strip description \<noteq> [] then strip description
              else str ''Promoted learning: '' @ title e)
             (title e) (case details e of None \<Rightarrow> [] | Some d \<Rightarrow> d) fp of
        Inl err \<Rightarrow> (Inl err, fs1)
      | Inr fs2 \<Rightarrow> mark_promoted fs2 entries_file fp destination_file)))"

definition cmd_promote ::
    "fs \<Rightarrow> pystr \<Rightarrow> pystr \<Rightarrow> pystr \<Rightarrow> pystr \<Rightarrow> pystr \<Rightarrow> (error + unit) \<times> fs" where
  "cmd_promote fs src fp slug description target =
     (case entries_path src of Inl err \<Rightarrow> (Inl err, fs) | Inr entries_file \<Rightarrow>
     (case load_lines fs entries_file of Inl err \<Rightarrow> (Inl err, fs) | Inr lines \<Rightarrow>
     (case find_entry_by_fingerprint (parse_entries lines) fp of
        Inl err \<Rightarrow> (Inl err, fs) | Inr e \<Rightarrow>
     (if status e \<noteq> Some (str ''approved'') \<and> status e \<noteq> Some (str ''promoted'')
      then (Inl InvalidState, fs) else
     (case safe_slug slug of Inl err \<Rightarrow> (Inl err, fs) | Inr normalized_slug \<Rightarrow>
     (case skill_dir target normalized_slug of
        Inl err \<Rightarrow> (Inl err, fs)
      | Inr destination_dir \<Rightarrow>
          write_artifact fs entries_file fp e normalized_slug description destination_dir
            (destination_dir @ [str ''SKILL.md''])))))))"

section \<open>Dashboard\<close>












section \<open>Vocabulary of the properties\<close>

text \<open>
  The shape of a parser result from index \<open>i\<close> on, used to state what the
  loops establish: no header line lies before the first record or strictly inside
  a span, a span ends at the next header line or at the end of the document, and
  the next record starts where the span ends.
\<close>

fun spans_from :: "pystr list \<Rightarrow> nat \<Rightarrow> entry list \<Rightarrow> bool" where
  "spans_from lines i [] = (\<forall>m. i \<le> m \<and> m < length lines \<longrightarrow> header_match (lines ! m) = None)"
| "spans_from lines i (e # es) =
     (i \<le> header_index e \<and>
      (\<forall>m. i \<le> m \<and> m < header_index e \<longrightarrow> header_match (lines ! m) = None) \<and>
      header_index e < length lines \<and> header_match (lines ! header_index e) \<noteq> None \<and>
      header_index e < end_index e \<and> end_index e \<le> length lines \<and>
      (\<forall>m. header_index e < m \<and> m < end_index e \<longrightarrow> header_match (lines ! m) = None) \<and>
      (end_index e < length lines \<longrightarrow> header_match (lines ! end_index e) \<noteq> None) \<and>
      spans_from lines (end_index e) es)"


text \<open>The class \<open>[a-z0-9-]\<close> that the specification names.\<close>

definition is_lower_slug_char :: "pychar \<Rightarrow> bool" where
  "is_lower_slug_char c = ((97 \<le> c \<and> c \<le> 122) \<or> (48 \<le> c \<and> c \<le> 57) \<or> c = 45)"

text \<open>
  Slug normalization in the words of the specification: lowercase, collapse any
  run of characters outside \<open>[a-z0-9-]\<close> into a single hyphen, trim leading and
  trailing hyphens.
\<close>

definition spec_slug :: "pystr \<Rightarrow> pystr" where
  "spec_slug v = strip_hyphen (sub_runs is_lower_slug_char (lower v))"

text \<open>What \<open>lower\<close> does to one ASCII character.\<close>

definition ascii_lower_char :: "pychar \<Rightarrow> pychar" where
  "ascii_lower_char c = (if 65 \<le> c \<and> c \<le> 90 then c + 32 else c)"

text \<open>The attribute of a record that a recognized key names.\<close>

definition get_field :: "pystr \<Rightarrow> entry \<Rightarrow> pystr option" where
  "get_field key e =
     (if key = str ''fingerprint'' then fingerprint e
      else if key = str ''source'' then source e
      else if key = str ''status'' then status e
      else if key = str ''details'' then details e
      else if key = str ''reviewNote'' then review_note e
      else None)"

text \<open>
  The record that the parser builds for the header line at index \<open>h\<close>: its
  span ends where the inner loop stops, and its attributes come from the field
  lines of the span.
\<close>

definition entry_at :: "pystr list \<Rightarrow> nat \<Rightarrow> entry" where
  "entry_at lines h =
     (case header_match (lines ! h) of
        None \<Rightarrow> make_entry lines h (scan_end lines (h + 1)) [] []
      | Some (ts, ttl) \<Rightarrow> make_entry lines h (scan_end lines (h + 1)) ts ttl)"

section \<open>An example repository\<close>

text \<open>
  The scenario of the specification: one document with one record, fingerprint
  \<open>abc123\<close>, whose status is the parameter, in a repository where the artifact
  \<open>cursor/skills/my-pattern/SKILL.md\<close> is already there.
\<close>

definition example_doc :: "pystr \<Rightarrow> pystr" where
  "example_doc st =
     str ''- [2024-01-01] My Pattern'' @ [10] @
     str ''  - fingerprint: abc123'' @ [10] @
     str ''  - status: '' @ st @ [10]"

definition example_fs :: "pystr \<Rightarrow> fs" where
  "example_fs st = map_of
     [([], Dir),
      ([str ''learning''], Dir),
      ([str ''learning'', str ''manual''], Dir),
      ([str ''learning'', str ''manual'', str ''entries.md''], File (example_doc st)),
      ([str ''learning'', str ''generated''], Dir),
      ([str ''learning'', str ''generated'', str ''entries.md''], File []),
      ([str ''cursor''], Dir),
      ([str ''cursor'', str ''skills''], Dir),
      ([str ''cursor'', str ''skills'', str ''my-pattern''], Dir),
      ([str ''cursor'', str ''skills'', str ''my-pattern'', str ''SKILL.md''], File (str ''old''))]"

section \<open>Evaluation of concrete inputs\<close>

lemmas text_evals = str_def startswith_def is_space_def lstrip_by_def rstrip_by_def strip_by_def
  strip_def rstrip_def strip_hyphen_def is_linebreak_def splitlines.simps lower_char_def lower_def
  dot_star_eol_def header_match_def is_key_char_def kv_match_def

lemmas parse_evals = scan_end.simps assign_kv_def field_step_def make_entry_def parse_loop.simps
  parse_entries_def

lemmas store_evals = kv_target_def update_or_insert_kv_def exists_path_def read_text_def
  write_text_def ancestors_and_self_def mkdir_parents_def entries_path_def load_lines_def
  saved_text_def save_lines_def is_slug_char_def safe_slug_def skill_dir_def

section \<open>Properties of the record store\<close>

subsection \<open>Searching a range of indices\<close>

lemma find_upt_Some:
  "List.find P [a ..< b] = Some i \<longleftrightarrow>
     a \<le> i \<and> i < b \<and> P i \<and> (\<forall>k. a \<le> k \<and> k < i \<longrightarrow> \<not> P k)"
proof (induction "b - a" arbitrary: a)
  case 0
  then show ?case by auto
next
  case (Suc n)
  then have ab: "a < b" and n: "n = b - Suc a" by auto
  have IH: "List.find P [Suc a ..< b] = Some i \<longleftrightarrow>
     Suc a \<le> i \<and> i < b \<and> P i \<and> (\<forall>k. Suc a \<le> k \<and> k < i \<longrightarrow> \<not> P k)"
    using Suc.hyps(1) [OF n] .
  show ?case
  proof (cases "P a")
    case True
    then show ?thesis using ab by (auto simp: upt_conv_Cons)
  next
    case False
    have "(\<forall>k. a \<le> k \<and> k < i \<longrightarrow> \<not> P k) \<longleftrightarrow> (\<forall>k. Suc a \<le> k \<and> k < i \<longrightarrow> \<not> P k)"
      using False by (metis Suc_leI le_neq_implies_less Suc_leD)
    moreover have "a \<le> i \<and> P i \<longleftrightarrow> Suc a \<le> i \<and> P i"
      using False by (metis Suc_leI le_neq_implies_less Suc_leD)
    ultimately show ?thesis using ab False IH by (auto simp: upt_conv_Cons)
  qed
qed

lemma find_upt_None:
  "List.find P [a ..< b] = None \<longleftrightarrow> (\<forall>k. a \<le> k \<and> k < b \<longrightarrow> \<not> P k)"
  by (auto simp: find_None_iff)

lemma find_target_in_range:
  "\<forall>i \<in> set xs. i < length lines \<Longrightarrow>
      find_target lines t xs = Inr (List.find (\<lambda>i. startswith (lines ! i) t) xs)"
  by (induction xs) auto

lemma find_target_upt:
  "b \<le> length lines \<Longrightarrow>
     find_target lines t [a ..< b] = Inr (List.find (\<lambda>i. startswith (lines ! i) t) [a ..< b])"
  by (rule find_target_in_range) auto

subsection \<open>Field upsert\<close>

text \<open>
  Claim C4. For a record whose span ends within the line list: if some line
  of the span (after the header) starts with the exact key prefix, then
  \<open>update_or_insert_kv\<close> replaces the first such line and nothing else, and the
  number of lines is unchanged; otherwise it inserts one new field line at the
  index \<open>end_index\<close>, every earlier line keeps its index, every later line moves
  by one, and the number of lines grows by one.
\<close>

theorem update_or_insert_kv_spec:
  assumes "end_index e \<le> length lines"
  shows "((\<exists>i. header_index e < i \<and> i < end_index e \<and> startswith (lines ! i) (kv_target key)) \<longrightarrow>
          (\<exists>i ls. update_or_insert_kv lines e key v = Inr ls \<and>
             header_index e < i \<and> i < end_index e \<and> startswith (lines ! i) (kv_target key) \<and>
             (\<forall>k. header_index e < k \<and> k < i \<longrightarrow> \<not> startswith (lines ! k) (kv_target key)) \<and>
             length ls = length lines \<and> ls ! i = kv_target key @ v \<and>
             (\<forall>k. k < length lines \<and> k \<noteq> i \<longrightarrow> ls ! k = lines ! k))) \<and>
         (\<not> (\<exists>i. header_index e < i \<and> i < end_index e \<and> startswith (lines ! i) (kv_target key)) \<longrightarrow>
          (\<exists>ls. update_or_insert_kv lines e key v = Inr ls \<and>
             length ls = length lines + 1 \<and> ls ! end_index e = kv_target key @ v \<and>
             (\<forall>k. k < end_index e \<longrightarrow> ls ! k = lines ! k) \<and>
             (\<forall>k. end_index e \<le> k \<and> k < length lines \<longrightarrow> ls ! (k + 1) = lines ! k)))"
proof (cases "List.find (\<lambda>i. startswith (lines ! i) (kv_target key)) [header_index e + 1 ..< end_index e]")
  case None
  then have no: "\<not> (\<exists>i. header_index e < i \<and> i < end_index e \<and> startswith (lines ! i) (kv_target key))"
    by (auto simp: find_upt_None)
  have upd: "update_or_insert_kv lines e key v =
      Inr (take (end_index e) lines @ [kv_target key @ v] @ drop (end_index e) lines)"
    using None assms by (simp add: update_or_insert_kv_def find_target_upt)
  have "length (take (end_index e) lines @ [kv_target key @ v] @ drop (end_index e) lines) = length lines + 1"
    using assms by simp
  moreover have "(take (end_index e) lines @ [kv_target key @ v] @ drop (end_index e) lines) ! end_index e
      = kv_target key @ v"
    using assms by (simp add: nth_append)
  moreover have "\<forall>k. k < end_index e \<longrightarrow>
      (take (end_index e) lines @ [kv_target key @ v] @ drop (end_index e) lines) ! k = lines ! k"
    using assms by (simp add: nth_append)
  moreover have "\<forall>k. end_index e \<le> k \<and> k < length lines \<longrightarrow>
      (take (end_index e) lines @ [kv_target key @ v] @ drop (end_index e) lines) ! (k + 1) = lines ! k"
    using assms by (auto simp: nth_append nth_Cons' min_def)
  ultimately show ?thesis using no upd by blast
next
  case (Some i)
  then have i: "header_index e < i" "i < end_index e" "startswith (lines ! i) (kv_target key)"
    "\<forall>k. header_index e < k \<and> k < i \<longrightarrow> \<not> startswith (lines ! k) (kv_target key)"
    by (auto simp: find_upt_Some)
  have upd: "update_or_insert_kv lines e key v = Inr (lines[i := kv_target key @ v])"
    using Some assms by (simp add: update_or_insert_kv_def find_target_upt)
  have "length (lines[i := kv_target key @ v]) = length lines" by simp
  moreover have "(lines[i := kv_target key @ v]) ! i = kv_target key @ v"
    using i assms by simp
  moreover have "\<forall>k. k < length lines \<and> k \<noteq> i \<longrightarrow> (lines[i := kv_target key @ v]) ! k = lines ! k"
    by simp
  ultimately show ?thesis using i upd by blast
qed

theorem update_or_insert_kv_spec_witness:
  "end_index \<lparr>header_index = 0, end_index = 3, timestamp = str ''t'', title = str ''One'',
       fingerprint = None, source = None, status = Some (str ''pending''),
       details = Some (str ''d''), review_note = None\<rparr>
     \<le> length [str ''- [t] One'', str ''  - status: pending'', str ''  - details: d''] \<and>
   update_or_insert_kv [str ''- [t] One'', str ''  - status: pending'', str ''  - details: d'']
      \<lparr>header_index = 0, end_index = 3, timestamp = str ''t'', title = str ''One'',
       fingerprint = None, source = None, status = Some (str ''pending''),
       details = Some (str ''d''), review_note = None\<rparr> (str ''status'') (str ''approved'')
    = Inr [str ''- [t] One'', str ''  - status: approved'', str ''  - details: d''] \<and>
   update_or_insert_kv [str ''- [t] One'', str ''  - status: pending'', str ''  - details: d'']
      \<lparr>header_index = 0, end_index = 3, timestamp = str ''t'', title = str ''One'',
       fingerprint = None, source = None, status = Some (str ''pending''),
       details = Some (str ''d''), review_note = None\<rparr> (str ''reviewNote'') (str ''ok'')
    = Inr [str ''- [t] One'', str ''  - status: pending'', str ''  - details: d'',
           str ''  - reviewNote: ok'']"
  using update_or_insert_kv_spec [of
      "\<lparr>header_index = 0, end_index = 3, timestamp = str ''t'', title = str ''One'',
       fingerprint = None, source = None, status = Some (str ''pending''),
       details = Some (str ''d''), review_note = None\<rparr>"
      "[str ''- [t] One'', str ''  - status: pending'', str ''  - details: d'']"
      "str ''status''" "str ''approved''"]
    update_or_insert_kv_spec [of
      "\<lparr>header_index = 0, end_index = 3, timestamp = str ''t'', title = str ''One'',
       fingerprint = None, source = None, status = Some (str ''pending''),
       details = Some (str ''d''), review_note = None\<rparr>"
      "[str ''- [t] One'', str ''  - status: pending'', str ''  - details: d'']"
      "str ''reviewNote''" "str ''ok''"]
  by (simp add: update_or_insert_kv_def kv_target_def startswith_def str_def upt_conv_Cons)

subsection \<open>Lookup by fingerprint\<close>

text \<open>
  Claim C6. \<open>find_entry_by_fingerprint\<close> fails with \<open>NotFound\<close> when no record
  carries the fingerprint, and otherwise returns the record at the least index
  whose fingerprint equals the argument: of two records sharing a fingerprint,
  the earlier one.
\<close>

theorem find_entry_by_fingerprint_first_match:
  "((\<forall>e \<in> set es. fingerprint e \<noteq> Some fp) \<longrightarrow>
      find_entry_by_fingerprint es fp = Inl NotFound) \<and>
   (\<forall>k. k < length es \<and> fingerprint (es ! k) = Some fp \<and>
        (\<forall>i. i < k \<longrightarrow> fingerprint (es ! i) \<noteq> Some fp) \<longrightarrow>
      find_entry_by_fingerprint es fp = Inr (es ! k))"
proof (induction es)
  case Nil
  show ?case by simp
next
  case (Cons e es)
  show ?case
  proof (intro conjI allI impI)
    assume "\<forall>x \<in> set (e # es). fingerprint x \<noteq> Some fp"
    with Cons show "find_entry_by_fingerprint (e # es) fp = Inl NotFound" by simp
  next
    fix k
    assume k: "k < length (e # es) \<and> fingerprint ((e # es) ! k) = Some fp \<and>
        (\<forall>i. i < k \<longrightarrow> fingerprint ((e # es) ! i) \<noteq> Some fp)"
    show "find_entry_by_fingerprint (e # es) fp = Inr ((e # es) ! k)"
    proof (cases k)
      case 0
      with k show ?thesis by simp
    next
      case (Suc n)
      with k have "fingerprint e \<noteq> Some fp" by auto
      moreover have "n < length es \<and> fingerprint (es ! n) = Some fp \<and>
          (\<forall>i. i < n \<longrightarrow> fingerprint (es ! i) \<noteq> Some fp)"
        using k Suc by auto
      with Cons have "find_entry_by_fingerprint es fp = Inr (es ! n)" by blast
      ultimately show ?thesis using Suc by simp
    qed
  qed
qed

theorem find_entry_by_fingerprint_first_match_witness:
  "find_entry_by_fingerprint
     [\<lparr>header_index = 0, end_index = 2, timestamp = str ''t1'', title = str ''One'',
       fingerprint = Some (str ''abc''), source = None, status = None, details = None,
       review_note = None\<rparr>,
      \<lparr>header_index = 2, end_index = 4, timestamp = str ''t2'', title = str ''Two'',
       fingerprint = Some (str ''abc''), source = None, status = None, details = None,
       review_note = None\<rparr>] (str ''abc'')
    = Inr \<lparr>header_index = 0, end_index = 2, timestamp = str ''t1'', title = str ''One'',
       fingerprint = Some (str ''abc''), source = None, status = None, details = None,
       review_note = None\<rparr> \<and>
   find_entry_by_fingerprint
     [\<lparr>header_index = 0, end_index = 2, timestamp = str ''t1'', title = str ''One'',
       fingerprint = Some (str ''abc''), source = None, status = None, details = None,
       review_note = None\<rparr>] (str ''xyz'') = Inl NotFound"
  using find_entry_by_fingerprint_first_match [of
     "[\<lparr>header_index = 0, end_index = 2, timestamp = str ''t1'', title = str ''One'',
       fingerprint = Some (str ''abc''), source = None, status = None, details = None,
       review_note = None\<rparr>,
      \<lparr>header_index = 2, end_index = 4, timestamp = str ''t2'', title = str ''Two'',
       fingerprint = Some (str ''abc''), source = None, status = None, details = None,
       review_note = None\<rparr>]" "str ''abc''"]
    find_entry_by_fingerprint_first_match [of
     "[\<lparr>header_index = 0, end_index = 2, timestamp = str ''t1'', title = str ''One'',
       fingerprint = Some (str ''abc''), source = None, status = None, details = None,
       review_note = None\<rparr>]" "str ''xyz''"]
  by (simp add: str_def)

subsection \<open>The parser's loops\<close>

lemma scan_end_ge: "j \<le> scan_end lines j"
proof (induction lines j rule: scan_end.induct)
  case (1 lines j)
  show ?case
  proof (cases "j < length lines \<and> header_match (lines ! j) = None")
    case True
    with 1 have "j + 1 \<le> scan_end lines (j + 1)" by simp
    with True show ?thesis by (subst scan_end.simps) simp
  next
    case False
    then show ?thesis by (subst scan_end.simps) auto
  qed
qed

lemma scan_end_le: "j \<le> length lines \<Longrightarrow> scan_end lines j \<le> length lines"
proof (induction lines j rule: scan_end.induct)
  case (1 lines j)
  show ?case
  proof (cases "j < length lines \<and> header_match (lines ! j) = None")
    case True
    with 1 have "scan_end lines (j + 1) \<le> length lines" by simp
    with True show ?thesis by (subst scan_end.simps) simp
  next
    case False
    with 1 show ?thesis by (subst scan_end.simps) auto
  qed
qed

lemma scan_end_skips:
  "j \<le> m \<Longrightarrow> m < scan_end lines j \<Longrightarrow> header_match (lines ! m) = None"
proof (induction lines j rule: scan_end.induct)
  case (1 lines j)
  show ?case
  proof (cases "j < length lines \<and> header_match (lines ! j) = None")
    case True
    then have eq: "scan_end lines j = scan_end lines (j + 1)" by (subst scan_end.simps) simp
    show ?thesis
    proof (cases "m = j")
      case True
      with \<open>j < length lines \<and> header_match (lines ! j) = None\<close> show ?thesis by simp
    next
      case False
      with 1 True eq show ?thesis by simp
    qed
  next
    case False
    then have "scan_end lines j = j" by (subst scan_end.simps) auto
    with 1 show ?thesis by simp
  qed
qed

lemma scan_end_stops:
  "scan_end lines j < length lines \<Longrightarrow> header_match (lines ! scan_end lines j) \<noteq> None"
proof (induction lines j rule: scan_end.induct)
  case (1 lines j)
  show ?case
  proof (cases "j < length lines \<and> header_match (lines ! j) = None")
    case True
    then have eq: "scan_end lines j = scan_end lines (j + 1)" by (subst scan_end.simps) simp
    with 1 True show ?thesis by simp
  next
    case False
    then have "scan_end lines j = j" by (subst scan_end.simps) auto
    with 1 False show ?thesis by auto
  qed
qed

lemma parse_loop_end: "\<not> i < length lines \<Longrightarrow> parse_loop lines i acc = acc"
  by (subst parse_loop.simps) simp

lemma parse_loop_skip:
  "i < length lines \<Longrightarrow> header_match (lines ! i) = None \<Longrightarrow>
     parse_loop lines i acc = parse_loop lines (i + 1) acc"
  by (subst parse_loop.simps) simp

lemma parse_loop_header:
  "i < length lines \<Longrightarrow> header_match (lines ! i) = Some (ts, ttl) \<Longrightarrow>
     parse_loop lines i acc =
       parse_loop lines (scan_end lines (i + 1))
         (acc @ [make_entry lines i (scan_end lines (i + 1)) ts ttl])"
  by (subst parse_loop.simps) simp

lemma parse_loop_acc: "parse_loop lines i acc = acc @ parse_loop lines i []"
proof (induction "length lines - i" arbitrary: i acc rule: less_induct)
  case less
  show ?case
  proof (cases "i < length lines")
    case False
    then show ?thesis by (simp add: parse_loop_end)
  next
    case True
    show ?thesis
    proof (cases "header_match (lines ! i)")
      case None
      have "length lines - (i + 1) < length lines - i" using True by simp
      from less [OF this] have "parse_loop lines (i + 1) acc = acc @ parse_loop lines (i + 1) []" .
      then show ?thesis using True None by (simp add: parse_loop_skip)
    next
      case (Some p)
      obtain ts ttl where p: "header_match (lines ! i) = Some (ts, ttl)"
        using Some by (cases p) simp
      let ?j = "scan_end lines (i + 1)"
      let ?e = "make_entry lines i ?j ts ttl"
      have "i + 1 \<le> ?j" by (rule scan_end_ge)
      then have m: "length lines - ?j < length lines - i" using True by simp
      have a: "parse_loop lines ?j (acc @ [?e]) = (acc @ [?e]) @ parse_loop lines ?j []"
        by (rule less [OF m])
      have b: "parse_loop lines ?j ([] @ [?e]) = ([] @ [?e]) @ parse_loop lines ?j []"
        by (rule less [OF m])
      have "parse_loop lines i acc = parse_loop lines ?j (acc @ [?e])"
        by (rule parse_loop_header [OF True p])
      moreover have "parse_loop lines i [] = parse_loop lines ?j ([] @ [?e])"
        by (rule parse_loop_header [OF True p])
      ultimately show ?thesis using a b by simp
    qed
  qed
qed

lemma parse_loop_header_Cons:
  "i < length lines \<Longrightarrow> header_match (lines ! i) = Some (ts, ttl) \<Longrightarrow>
     parse_loop lines i [] =
       make_entry lines i (scan_end lines (i + 1)) ts ttl # parse_loop lines (scan_end lines (i + 1)) []"
  using parse_loop_header [of i lines ts ttl "[]"]
    parse_loop_acc [of lines "scan_end lines (i + 1)" "[make_entry lines i (scan_end lines (i + 1)) ts ttl]"]
  by simp

lemma assign_kv_keeps:
  "header_index (assign_kv key v e) = header_index e"
  "end_index (assign_kv key v e) = end_index e"
  "timestamp (assign_kv key v e) = timestamp e"
  "title (assign_kv key v e) = title e"
  by (simp_all add: assign_kv_def)

lemma field_step_keeps:
  "header_index (field_step lines k e) = header_index e"
  "end_index (field_step lines k e) = end_index e"
  "timestamp (field_step lines k e) = timestamp e"
  "title (field_step lines k e) = title e"
  by (simp_all add: field_step_def assign_kv_keeps split: option.splits prod.splits)

lemma fold_field_step_keeps:
  "header_index (fold (field_step lines) ks e) = header_index e \<and>
   end_index (fold (field_step lines) ks e) = end_index e \<and>
   timestamp (fold (field_step lines) ks e) = timestamp e \<and>
   title (fold (field_step lines) ks e) = title e"
  by (induction ks arbitrary: e) (simp_all add: field_step_keeps)

lemma make_entry_keeps:
  "header_index (make_entry lines i j ts ttl) = i"
  "end_index (make_entry lines i j ts ttl) = j"
  "timestamp (make_entry lines i j ts ttl) = ts"
  "title (make_entry lines i j ts ttl) = ttl"
  by (simp_all add: make_entry_def fold_field_step_keeps)

lemma spans_from_weaken:
  "spans_from lines (i + 1) es \<Longrightarrow> header_match (lines ! i) = None \<Longrightarrow> spans_from lines i es"
proof (cases es)
  case Nil
  assume "spans_from lines (i + 1) es" "header_match (lines ! i) = None"
  with Nil show ?thesis
    by (metis Suc_eq_plus1 Suc_leI le_neq_implies_less spans_from.simps(1))
next
  case (Cons e es')
  assume a: "spans_from lines (i + 1) es" "header_match (lines ! i) = None"
  have "\<forall>m. i \<le> m \<and> m < header_index e \<longrightarrow> header_match (lines ! m) = None"
  proof (intro allI impI)
    fix m assume m: "i \<le> m \<and> m < header_index e"
    show "header_match (lines ! m) = None"
    proof (cases "m = i")
      case True with a show ?thesis by simp
    next
      case False
      with m have "i + 1 \<le> m" by simp
      with a Cons m show ?thesis by simp
    qed
  qed
  with a Cons show ?thesis by simp
qed

lemma parse_loop_spans_from: "spans_from lines i (parse_loop lines i [])"
proof (induction "length lines - i" arbitrary: i rule: less_induct)
  case less
  show ?case
  proof (cases "i < length lines")
    case False
    then show ?thesis by (auto simp: parse_loop_end)
  next
    case True
    show ?thesis
    proof (cases "header_match (lines ! i)")
      case None
      have "length lines - (i + 1) < length lines - i" using True by simp
      from less [OF this] have "spans_from lines (i + 1) (parse_loop lines (i + 1) [])" .
      then have "spans_from lines i (parse_loop lines (i + 1) [])"
        using None by (rule spans_from_weaken)
      then show ?thesis using True None by (simp add: parse_loop_skip)
    next
      case (Some p)
      obtain ts ttl where p: "header_match (lines ! i) = Some (ts, ttl)"
        using Some by (cases p) simp
      let ?j = "scan_end lines (i + 1)"
      let ?e = "make_entry lines i ?j ts ttl"
      have ge: "i + 1 \<le> ?j" by (rule scan_end_ge)
      have le: "?j \<le> length lines" using True by (intro scan_end_le) simp
      have m: "length lines - ?j < length lines - i" using True ge by simp
      have rest: "spans_from lines ?j (parse_loop lines ?j [])" by (rule less [OF m])
      have skip: "\<forall>m. i < m \<and> m < ?j \<longrightarrow> header_match (lines ! m) = None"
        using scan_end_skips [of "i + 1" _ lines] by simp
      have stop: "?j < length lines \<longrightarrow> header_match (lines ! ?j) \<noteq> None"
        using scan_end_stops [of lines "i + 1"] by blast
      have "spans_from lines i (?e # parse_loop lines ?j [])"
        using True p ge le skip stop rest by (simp add: make_entry_keeps)
      then show ?thesis using True p by (simp add: parse_loop_header_Cons)
    qed
  qed
qed

lemma spans_from_nth:
  "spans_from lines i es \<Longrightarrow> k < length es \<Longrightarrow>
     header_index (es ! k) < end_index (es ! k) \<and>
     end_index (es ! k) \<le> length lines \<and>
     header_match (lines ! header_index (es ! k)) \<noteq> None \<and>
     (\<forall>m. header_index (es ! k) < m \<and> m < end_index (es ! k) \<longrightarrow> header_match (lines ! m) = None) \<and>
     (Suc k < length es \<longrightarrow> end_index (es ! k) = header_index (es ! Suc k)) \<and>
     (Suc k = length es \<longrightarrow> end_index (es ! k) = length lines)"
proof (induction es arbitrary: i k)
  case Nil
  then show ?case by simp
next
  case (Cons e es)
  show ?case
  proof (cases k)
    case (Suc n)
    from Cons.prems have "spans_from lines (end_index e) es" "n < length es"
      using Suc by simp_all
    from Cons.IH [OF this] have IH: "header_index (es ! n) < end_index (es ! n) \<and>
        end_index (es ! n) \<le> length lines \<and>
        header_match (lines ! header_index (es ! n)) \<noteq> None \<and>
        (\<forall>m. header_index (es ! n) < m \<and> m < end_index (es ! n) \<longrightarrow> header_match (lines ! m) = None) \<and>
        (Suc n < length es \<longrightarrow> end_index (es ! n) = header_index (es ! Suc n)) \<and>
        (Suc n = length es \<longrightarrow> end_index (es ! n) = length lines)" .
    have eqs: "(Suc (Suc n) < length (e # es)) = (Suc n < length es)"
      "(Suc (Suc n) = length (e # es)) = (Suc n = length es)"
      "(e # es) ! Suc n = es ! n" "(e # es) ! Suc (Suc n) = es ! Suc n" by simp_all
    show ?thesis unfolding Suc eqs by (rule IH)
  next
    case 0
    have next_hd: "Suc 0 < length (e # es) \<longrightarrow> end_index e = header_index (es ! 0)"
    proof
      assume "Suc 0 < length (e # es)"
      then obtain e' es' where es: "es = e' # es'" by (cases es) auto
      from Cons.prems(1) have a: "end_index e \<le> header_index e'"
        "\<forall>m. end_index e \<le> m \<and> m < header_index e' \<longrightarrow> header_match (lines ! m) = None"
        "header_index e' < length lines"
        "end_index e < length lines \<longrightarrow> header_match (lines ! end_index e) \<noteq> None"
        unfolding es spans_from.simps by blast+
      have "\<not> end_index e < header_index e'"
      proof
        assume lt: "end_index e < header_index e'"
        with a(3) have "end_index e < length lines" by simp
        with a(4) have "header_match (lines ! end_index e) \<noteq> None" by simp
        moreover from a(2) lt have "header_match (lines ! end_index e) = None" by simp
        ultimately show False by simp
      qed
      with a(1) es show "end_index e = header_index (es ! 0)" by simp
    qed
    have last_end: "Suc 0 = length (e # es) \<longrightarrow> end_index e = length lines"
    proof
      assume "Suc 0 = length (e # es)"
      then have es: "es = []" by simp
      from Cons.prems(1) have a: "end_index e \<le> length lines"
        "end_index e < length lines \<longrightarrow> header_match (lines ! end_index e) \<noteq> None"
        "\<forall>m. end_index e \<le> m \<and> m < length lines \<longrightarrow> header_match (lines ! m) = None"
        unfolding es spans_from.simps by blast+
      have "\<not> end_index e < length lines"
      proof
        assume lt: "end_index e < length lines"
        with a(2) have "header_match (lines ! end_index e) \<noteq> None" by simp
        moreover from a(3) lt have "header_match (lines ! end_index e) = None" by simp
        ultimately show False by simp
      qed
      with a(1) show "end_index e = length lines" by simp
    qed
    have b: "header_index e < end_index e \<and> end_index e \<le> length lines \<and>
        header_match (lines ! header_index e) \<noteq> None \<and>
        (\<forall>m. header_index e < m \<and> m < end_index e \<longrightarrow> header_match (lines ! m) = None)"
      using Cons.prems(1) unfolding spans_from.simps by blast
    have eq0: "(e # es) ! 0 = e" "(e # es) ! Suc 0 = es ! 0" by simp_all
    show ?thesis unfolding 0 eq0 using b next_hd last_end by blast
  qed
qed

lemma filter_upt_none:
  "(\<forall>m. a \<le> m \<and> m < b \<longrightarrow> \<not> P m) \<Longrightarrow> filter P [a ..< b] = []"
  by (auto simp: filter_empty_conv)

lemma spans_from_headers:
  "spans_from lines i es \<Longrightarrow> i \<le> length lines \<Longrightarrow>
     map header_index es = filter (\<lambda>m. header_match (lines ! m) \<noteq> None) [i ..< length lines]"
proof (induction es arbitrary: i)
  case Nil
  then show ?case by (simp add: filter_upt_none)
next
  case (Cons e es)
  let ?P = "\<lambda>m. header_match (lines ! m) \<noteq> None"
  let ?h = "header_index e" and ?j = "end_index e" and ?n = "length lines"
  from Cons.prems have a: "i \<le> ?h" "?h < ?j" "?j \<le> ?n" "?P ?h"
    "\<forall>m. i \<le> m \<and> m < ?h \<longrightarrow> \<not> ?P m" "\<forall>m. ?h < m \<and> m < ?j \<longrightarrow> \<not> ?P m"
    "spans_from lines ?j es" by simp_all
  have split: "[i ..< ?n] = [i ..< ?h] @ [?h] @ [Suc ?h ..< ?j] @ [?j ..< ?n]"
  proof -
    have "[i ..< ?n] = [i ..< ?h] @ [?h ..< ?n]" using a by (metis le_Suc_ex less_imp_le_nat order_trans upt_add_eq_append)
    moreover have "[?h ..< ?n] = ?h # [Suc ?h ..< ?n]" using a by (simp add: upt_conv_Cons)
    moreover have "[Suc ?h ..< ?n] = [Suc ?h ..< ?j] @ [?j ..< ?n]" using a
      by (metis Suc_leI le_Suc_ex upt_add_eq_append)
    ultimately show ?thesis by simp
  qed
  have "filter ?P [i ..< ?h] = []" using a(5) by (intro filter_upt_none) simp
  moreover have "filter ?P [Suc ?h ..< ?j] = []" using a(6) by (intro filter_upt_none) simp
  moreover have "map header_index es = filter ?P [?j ..< ?n]" using Cons.IH [OF a(7) a(3)] .
  ultimately show ?case using a(4) by (simp add: split)
qed

lemma spans_from_apart:
  "spans_from lines i es \<Longrightarrow> k < l \<Longrightarrow> l < length es \<Longrightarrow>
     end_index (es ! k) \<le> header_index (es ! l)"
proof (induction es arbitrary: i k l)
  case Nil
  then show ?case by simp
next
  case (Cons e es)
  from Cons.prems obtain l' where l: "l = Suc l'" by (cases l) auto
  have rest: "spans_from lines (end_index e) es" using Cons.prems by simp
  have first: "l' < length es \<Longrightarrow> end_index e \<le> header_index (es ! l')" for l'
    using rest
  proof (induction es arbitrary: l' e)
    case Nil then show ?case by simp
  next
    case (Cons e' es')
    show ?case
    proof (cases l')
      case 0 with Cons.prems show ?thesis by simp
    next
      case (Suc n)
      from Cons.prems have "spans_from lines (end_index e') es'" "n < length es'" using Suc by simp_all
      from Cons.IH [OF this(2) this(1)] have "end_index e' \<le> header_index (es' ! n)" .
      moreover from Cons.prems have "end_index e \<le> header_index e'" "header_index e' < end_index e'" by simp_all
      ultimately show ?thesis using Suc by simp
    qed
  qed
  show ?case
  proof (cases k)
    case 0
    with l Cons.prems first [of l'] show ?thesis by simp
  next
    case (Suc k')
    with l Cons.prems have "k' < l'" "l' < length es" by simp_all
    from Cons.IH [OF rest this] show ?thesis using Suc l by simp
  qed
qed

subsection \<open>Spans of the parsed records\<close>

text \<open>
  Claim C5. The records returned by \<open>parse_entries\<close> are in document order and
  their spans do not overlap: each record's span starts at its header line,
  contains no other header line, and ends exactly at the header line of the next
  record, or at the end of the document for the last record; the header lines
  of the records are exactly the header lines of the document, in order.
\<close>

theorem parse_entries_spans:
  "(\<forall>k. k < length (parse_entries lines) \<longrightarrow>
      header_index (parse_entries lines ! k) < end_index (parse_entries lines ! k) \<and>
      end_index (parse_entries lines ! k) \<le> length lines \<and>
      header_match (lines ! header_index (parse_entries lines ! k)) \<noteq> None \<and>
      (\<forall>m. header_index (parse_entries lines ! k) < m \<and> m < end_index (parse_entries lines ! k)
          \<longrightarrow> header_match (lines ! m) = None) \<and>
      (Suc k < length (parse_entries lines) \<longrightarrow>
          end_index (parse_entries lines ! k) = header_index (parse_entries lines ! Suc k)) \<and>
      (Suc k = length (parse_entries lines) \<longrightarrow>
          end_index (parse_entries lines ! k) = length lines)) \<and>
   (\<forall>k l. k < l \<and> l < length (parse_entries lines) \<longrightarrow>
      end_index (parse_entries lines ! k) \<le> header_index (parse_entries lines ! l)) \<and>
   map header_index (parse_entries lines) =
     filter (\<lambda>m. header_match (lines ! m) \<noteq> None) [0 ..< length lines]"
proof -
  have s: "spans_from lines 0 (parse_entries lines)"
    unfolding parse_entries_def by (rule parse_loop_spans_from)
  show ?thesis
    using spans_from_nth [OF s] spans_from_apart [OF s] spans_from_headers [OF s] by simp
qed

theorem parse_entries_spans_witness:
  "length (parse_entries [str ''notes'', str ''- [t1] One'', str ''  - status: pending'',
                     str ''- [t2] Two'', str ''  - fingerprint: abc'']) = 2 \<and>
   end_index (parse_entries [str ''notes'', str ''- [t1] One'', str ''  - status: pending'',
                     str ''- [t2] Two'', str ''  - fingerprint: abc''] ! 0)
     = header_index (parse_entries [str ''notes'', str ''- [t1] One'', str ''  - status: pending'',
                     str ''- [t2] Two'', str ''  - fingerprint: abc''] ! Suc 0) \<and>
   end_index (parse_entries [str ''notes'', str ''- [t1] One'', str ''  - status: pending'',
                     str ''- [t2] Two'', str ''  - fingerprint: abc''] ! Suc 0)
     = length [str ''notes'', str ''- [t1] One'', str ''  - status: pending'',
                     str ''- [t2] Two'', str ''  - fingerprint: abc'']"
proof -
  let ?L = "[str ''notes'', str ''- [t1] One'', str ''  - status: pending'',
             str ''- [t2] Two'', str ''  - fingerprint: abc'']"
  have ev: "parse_entries ?L =
     [\<lparr>header_index = 1, end_index = 3, timestamp = str ''t1'', title = str ''One'',
       fingerprint = None, source = None, status = Some (str ''pending''), details = None,
       review_note = None\<rparr>,
      \<lparr>header_index = 3, end_index = 5, timestamp = str ''t2'', title = str ''Two'',
       fingerprint = Some (str ''abc''), source = None, status = None, details = None,
       review_note = None\<rparr>]"
    by (simp add: text_evals parse_evals upt_conv_Cons)
  have len: "length (parse_entries ?L) = 2" by (simp add: ev)
  then have k: "0 < length (parse_entries ?L)" "Suc 0 < length (parse_entries ?L)"
    "Suc (Suc 0) = length (parse_entries ?L)" by simp_all
  from parse_entries_spans [of ?L] k(1,2)
  have a: "end_index (parse_entries ?L ! 0) = header_index (parse_entries ?L ! Suc 0)" by blast
  from parse_entries_spans [of ?L] k(2,3)
  have b: "end_index (parse_entries ?L ! Suc 0) = length ?L" by blast
  from len a b show ?thesis by blast
qed

section \<open>Properties of the workflows\<close>

subsection \<open>Evaluating the example\<close>

lemma example_load:
  "load_lines (example_fs st) [str ''learning'', str ''manual'', str ''entries.md'']
     = Inr (splitlines (universal_newlines (example_doc st)))"
  by (simp add: load_lines_def exists_path_def read_text_def example_fs_def str_def)

lemma example_lines_pending:
  "splitlines (universal_newlines (example_doc (str ''pending''))) =
     [str ''- [2024-01-01] My Pattern'', str ''  - fingerprint: abc123'', str ''  - status: pending'']"
  by (simp add: example_doc_def text_evals)

lemma example_parse_pending:
  "parse_entries [str ''- [2024-01-01] My Pattern'', str ''  - fingerprint: abc123'', str ''  - status: pending'']
    = [\<lparr>header_index = 0, end_index = 3, timestamp = str ''2024-01-01'', title = str ''My Pattern'',
       fingerprint = Some (str ''abc123''), source = None, status = Some (str ''pending''),
       details = None, review_note = None\<rparr>]"
  by (simp add: text_evals parse_evals upt_conv_Cons)

lemma example_lines_approved:
  "splitlines (universal_newlines (example_doc (str ''approved''))) =
     [str ''- [2024-01-01] My Pattern'', str ''  - fingerprint: abc123'', str ''  - status: approved'']"
  by (simp add: example_doc_def text_evals)

lemma example_parse_approved:
  "parse_entries [str ''- [2024-01-01] My Pattern'', str ''  - fingerprint: abc123'', str ''  - status: approved'']
    = [\<lparr>header_index = 0, end_index = 3, timestamp = str ''2024-01-01'', title = str ''My Pattern'',
       fingerprint = Some (str ''abc123''), source = None, status = Some (str ''approved''),
       details = None, review_note = None\<rparr>]"
  by (simp add: text_evals parse_evals upt_conv_Cons)

subsection \<open>Promotion gating\<close>

text \<open>
  Claim C2. When the record that \<open>cmd_promote\<close> locates has a status other than
  \<open>approved\<close> and \<open>promoted\<close> (\<open>pending\<close>, \<open>rejected\<close>, absent, or any other
  string), the command fails with \<open>InvalidState\<close> and leaves the file system as it
  was: no artifact is written and the document is not modified.
\<close>

theorem promote_requires_approval:
  assumes "entries_path src = Inr p"
    and "load_lines fs p = Inr lines"
    and "find_entry_by_fingerprint (parse_entries lines) fp = Inr e"
    and "status e \<noteq> Some (str ''approved'')" and "status e \<noteq> Some (str ''promoted'')"
  shows "cmd_promote fs src fp slug description target = (Inl InvalidState, fs)"
  using assms by (simp add: cmd_promote_def)

theorem promote_requires_approval_witness:
  "entries_path (str ''manual'') = Inr [str ''learning'', str ''manual'', str ''entries.md''] \<and>
   load_lines (example_fs (str ''pending'')) [str ''learning'', str ''manual'', str ''entries.md'']
     = Inr [str ''- [2024-01-01] My Pattern'', str ''  - fingerprint: abc123'',
            str ''  - status: pending''] \<and>
   find_entry_by_fingerprint
     (parse_entries [str ''- [2024-01-01] My Pattern'', str ''  - fingerprint: abc123'',
                     str ''  - status: pending'']) (str ''abc123'')
     = Inr \<lparr>header_index = 0, end_index = 3, timestamp = str ''2024-01-01'',
            title = str ''My Pattern'', fingerprint = Some (str ''abc123''), source = None,
            status = Some (str ''pending''), details = None, review_note = None\<rparr> \<and>
   cmd_promote (example_fs (str ''pending'')) (str ''manual'') (str ''abc123'')
       (str ''My Pattern'') [] (str ''skills'')
     = (Inl InvalidState, example_fs (str ''pending''))"
proof -
  let ?e = "\<lparr>header_index = 0, end_index = 3, timestamp = str ''2024-01-01'',
            title = str ''My Pattern'', fingerprint = Some (str ''abc123''), source = None,
            status = Some (str ''pending''), details = None, review_note = None\<rparr>"
  have h1: "entries_path (str ''manual'') = Inr [str ''learning'', str ''manual'', str ''entries.md'']"
    by (simp add: entries_path_def)
  have h2: "load_lines (example_fs (str ''pending'')) [str ''learning'', str ''manual'', str ''entries.md'']
     = Inr [str ''- [2024-01-01] My Pattern'', str ''  - fingerprint: abc123'',
            str ''  - status: pending'']"
    by (simp add: example_load example_lines_pending)
  have h3: "find_entry_by_fingerprint
     (parse_entries [str ''- [2024-01-01] My Pattern'', str ''  - fingerprint: abc123'',
                     str ''  - status: pending'']) (str ''abc123'') = Inr ?e"
    by (simp add: example_parse_pending)
  have h4: "status ?e \<noteq> Some (str ''approved'')" by (simp add: str_def)
  have h5: "status ?e \<noteq> Some (str ''promoted'')" by (simp add: str_def)
  from promote_requires_approval [OF h1 h2 h3 h4 h5] h1 h2 h3 show ?thesis by blast
qed

subsection \<open>Duplicate promotion\<close>

lemma mkdir_each_present:
  "\<forall>a \<in> set ds. fs a = Some Dir \<Longrightarrow> mkdir_each fs ds = Inr fs"
  by (induction ds) simp_all

text \<open>
  Claim C1, as stated, for every repository state in which the artifact exists:
  it fails where the located record is \<open>pending\<close>, since the status check comes
  first and the command ends with \<open>InvalidState\<close>.
\<close>

theorem promote_duplicate_needs_approval_counterexample:
  "safe_slug (str ''My Pattern'') = Inr (str ''my-pattern'') \<and>
   skill_dir (str ''skills'') (str ''my-pattern'') =
     Inr [str ''cursor'', str ''skills'', str ''my-pattern''] \<and>
   example_fs (str ''pending'') [str ''cursor'', str ''skills'', str ''my-pattern'', str ''SKILL.md'']
     = Some (File (str ''old'')) \<and>
   fst (cmd_promote (example_fs (str ''pending'')) (str ''manual'') (str ''abc123'')
          (str ''My Pattern'') [] (str ''skills'')) = Inl InvalidState"
proof -
  have "cmd_promote (example_fs (str ''pending'')) (str ''manual'') (str ''abc123'')
          (str ''My Pattern'') [] (str ''skills'') = (Inl InvalidState, example_fs (str ''pending''))"
    by (simp add: cmd_promote_def entries_path_def example_load example_lines_pending
        example_parse_pending) (simp add: str_def)
  moreover have "safe_slug (str ''My Pattern'') = Inr (str ''my-pattern'')"
    by (simp add: text_evals store_evals)
  moreover have "skill_dir (str ''skills'') (str ''my-pattern'') =
     Inr [str ''cursor'', str ''skills'', str ''my-pattern'']"
    by (simp add: skill_dir_def)
  moreover have "example_fs (str ''pending'') [str ''cursor'', str ''skills'', str ''my-pattern'', str ''SKILL.md'']
     = Some (File (str ''old''))"
    by (simp add: example_fs_def str_def)
  ultimately show ?thesis by simp
qed

text \<open>
  Claim C1, amended. When the document loads, the record is found, its status is
  \<open>approved\<close> or \<open>promoted\<close>, the slug and the target are accepted, and the
  artifact file for the normalized slug exists (below directories that exist),
  \<open>cmd_promote\<close> fails with \<open>DuplicateResource\<close> and leaves the file system as it
  was: neither the artifact nor the document, and so neither the status nor the
  review note of the record, is modified. The directory creation that precedes
  the existence check changes nothing, since the directory is there.
\<close>

theorem promote_duplicate_artifact:
  assumes "entries_path src = Inr p"
    and "load_lines fs p = Inr lines"
    and "find_entry_by_fingerprint (parse_entries lines) fp = Inr e"
    and "status e = Some (str ''approved'') \<or> status e = Some (str ''promoted'')"
    and "safe_slug slug = Inr ns"
    and "skill_dir target ns = Inr d"
    and "fs (d @ [str ''SKILL.md'']) = Some (File body)"
    and "\<forall>a \<in> set (ancestors_and_self d). fs a = Some Dir"
  shows "cmd_promote fs src fp slug description target = (Inl DuplicateResource, fs)"
proof -
  have "mkdir_parents fs d = Inr fs"
    unfolding mkdir_parents_def using assms(8) by (rule mkdir_each_present)
  then have "write_artifact fs p fp e ns description d (d @ [str ''SKILL.md''])
      = (Inl DuplicateResource, fs)"
    using assms(7) by (simp add: write_artifact_def exists_path_def)
  then show ?thesis
    using assms(1-6) by (auto simp: cmd_promote_def)
qed

theorem promote_duplicate_artifact_witness:
  "load_lines (example_fs (str ''approved'')) [str ''learning'', str ''manual'', str ''entries.md'']
     = Inr [str ''- [2024-01-01] My Pattern'', str ''  - fingerprint: abc123'',
            str ''  - status: approved''] \<and>
   find_entry_by_fingerprint
     (parse_entries [str ''- [2024-01-01] My Pattern'', str ''  - fingerprint: abc123'',
                     str ''  - status: approved'']) (str ''abc123'')
     = Inr \<lparr>header_index = 0, end_index = 3, timestamp = str ''2024-01-01'',
            title = str ''My Pattern'', fingerprint = Some (str ''abc123''), source = None,
            status = Some (str ''approved''), details = None, review_note = None\<rparr> \<and>
   safe_slug (str ''My Pattern'') = Inr (str ''my-pattern'') \<and>
   skill_dir (str ''skills'') (str ''my-pattern'') =
     Inr [str ''cursor'', str ''skills'', str ''my-pattern''] \<and>
   example_fs (str ''approved'')
       [str ''cursor'', str ''skills'', str ''my-pattern'', str ''SKILL.md'']
     = Some (File (str ''old'')) \<and>
   map (example_fs (str ''approved''))
       (ancestors_and_self [str ''cursor'', str ''skills'', str ''my-pattern''])
     = [Some Dir, Some Dir, Some Dir, Some Dir] \<and>
   cmd_promote (example_fs (str ''approved'')) (str ''manual'') (str ''abc123'')
       (str ''My Pattern'') [] (str ''skills'')
     = (Inl DuplicateResource, example_fs (str ''approved''))"
proof -
  let ?e = "\<lparr>header_index = 0, end_index = 3, timestamp = str ''2024-01-01'',
            title = str ''My Pattern'', fingerprint = Some (str ''abc123''), source = None,
            status = Some (str ''approved''), details = None, review_note = None\<rparr>"
  let ?d = "[str ''cursor'', str ''skills'', str ''my-pattern'']"
  have h1: "entries_path (str ''manual'') = Inr [str ''learning'', str ''manual'', str ''entries.md'']"
    by (simp add: entries_path_def)
  have h2: "load_lines (example_fs (str ''approved'')) [str ''learning'', str ''manual'', str ''entries.md'']
     = Inr [str ''- [2024-01-01] My Pattern'', str ''  - fingerprint: abc123'',
            str ''  - status: approved'']"
    by (simp add: example_load example_lines_approved)
  have h3: "find_entry_by_fingerprint
     (parse_entries [str ''- [2024-01-01] My Pattern'', str ''  - fingerprint: abc123'',
                     str ''  - status: approved'']) (str ''abc123'') = Inr ?e"
    by (simp add: example_parse_approved)
  have h4: "status ?e = Some (str ''approved'') \<or> status ?e = Some (str ''promoted'')" by simp
  have h5: "safe_slug (str ''My Pattern'') = Inr (str ''my-pattern'')"
    by (simp add: text_evals store_evals)
  have h6: "skill_dir (str ''skills'') (str ''my-pattern'') = Inr ?d"
    by (simp add: skill_dir_def)
  have h7: "example_fs (str ''approved'') (?d @ [str ''SKILL.md'']) = Some (File (str ''old''))"
    by (simp add: example_fs_def str_def)
  have h8: "\<forall>a \<in> set (ancestors_and_self ?d). example_fs (str ''approved'') a = Some Dir"
    by (simp add: ancestors_and_self_def example_fs_def str_def upt_conv_Cons)
  have h9: "map (example_fs (str ''approved'')) (ancestors_and_self ?d)
      = [Some Dir, Some Dir, Some Dir, Some Dir]"
    by (simp add: ancestors_and_self_def example_fs_def str_def upt_conv_Cons)
  from promote_duplicate_artifact [OF h1 h2 h3 h4 h5 h6 h7 h8] h2 h3 h5 h6 h7 h9
  show ?thesis by simp
qed

subsection \<open>Dashboard\<close>









subsection \<open>Review\<close>







subsection \<open>Loading and saving\<close>












subsection \<open>Slug normalization\<close>

lemma sub_runs_outside_Cons:
  "\<not> ok c \<Longrightarrow> dropWhile (\<lambda>x. x = 45) (sub_runs ok (c # s)) = dropWhile (\<lambda>x. x = 45) (sub_runs ok s)"
  by (cases s) simp_all

lemma sub_runs_lstrip:
  assumes "\<And>c. P c \<Longrightarrow> \<not> ok c"
  shows "dropWhile (\<lambda>x. x = 45) (sub_runs ok (dropWhile P s)) = dropWhile (\<lambda>x. x = 45) (sub_runs ok s)"
proof (induction s)
  case Nil
  show ?case by simp
next
  case (Cons c s)
  show ?case
  proof (cases "P c")
    case True
    then have "\<not> ok c" by (rule assms)
    then show ?thesis using True Cons by (simp add: sub_runs_outside_Cons)
  next
    case False
    then show ?thesis by simp
  qed
qed

lemma sub_runs_snoc:
  "sub_runs ok (s @ [c]) =
     (if ok c then sub_runs ok s @ [c]
      else if s \<noteq> [] \<and> \<not> ok (last s) then sub_runs ok s
      else sub_runs ok s @ [45])"
  by (induction ok s rule: sub_runs.induct) auto

lemma sub_runs_rev: "sub_runs ok (rev s) = rev (sub_runs ok s)"
proof (induction ok s rule: sub_runs.induct)
  case (1 ok)
  show ?case by simp
next
  case (2 ok c)
  show ?case by simp
next
  case (3 ok c d s)
  have "sub_runs ok (rev (d # s)) = rev (sub_runs ok (d # s))"
    using 3 by (cases "ok c"; cases "ok d") auto
  moreover have "rev (d # s) \<noteq> []" "last (rev (d # s)) = d" by simp_all
  moreover have "rev (c # d # s) = rev (d # s) @ [c]" by simp
  ultimately show ?case
    by (simp only: sub_runs_snoc sub_runs.simps) auto
qed

lemma sub_runs_rstrip:
  assumes "\<And>c. P c \<Longrightarrow> \<not> ok c"
  shows "rstrip_by (\<lambda>x. x = 45) (sub_runs ok (rstrip_by P s)) = rstrip_by (\<lambda>x. x = 45) (sub_runs ok s)"
proof -
  have "rev (sub_runs ok (rev (dropWhile P (rev s)))) = sub_runs ok (dropWhile P (rev s))"
    by (simp add: sub_runs_rev)
  then have "rstrip_by (\<lambda>x. x = 45) (sub_runs ok (rstrip_by P s))
      = rev (dropWhile (\<lambda>x. x = 45) (sub_runs ok (dropWhile P (rev s))))"
    by (simp add: rstrip_by_def)
  also have "\<dots> = rev (dropWhile (\<lambda>x. x = 45) (sub_runs ok (rev s)))"
    using assms by (simp add: sub_runs_lstrip)
  also have "\<dots> = rstrip_by (\<lambda>x. x = 45) (sub_runs ok s)"
    by (simp add: rstrip_by_def sub_runs_rev)
  finally show ?thesis .
qed

lemma rstrip_by_Cons:
  "rstrip_by H (a # xs) =
     (if \<forall>x \<in> set xs. H x then (if H a then [] else [a]) else a # rstrip_by H xs)"
  by (simp add: rstrip_by_def dropWhile_append)

lemma rstrip_by_Nil: "rstrip_by H [] = []"
  by (simp add: rstrip_by_def)

lemma strip_commute: "rstrip_by H (dropWhile H x) = dropWhile H (rstrip_by H x)"
proof (induction x)
  case Nil
  show ?case by (simp add: rstrip_by_Nil)
next
  case (Cons a xs)
  show ?case
  proof (cases "H a")
    case True
    show ?thesis
    proof (cases "\<forall>x \<in> set xs. H x")
      case all: True
      then have "rstrip_by H (dropWhile H xs) = []"
        by (metis dropWhile_eq_Nil_conv rstrip_by_Nil)
      with True all show ?thesis by (simp add: rstrip_by_Cons)
    next
      case False
      with True Cons show ?thesis by (auto simp: rstrip_by_Cons)
    qed
  next
    case False
    then show ?thesis by (simp add: rstrip_by_Cons)
  qed
qed

lemma space_not_slug_char: "is_space c \<Longrightarrow> \<not> is_slug_char c"
  by (auto simp: is_space_def is_slug_char_def)

lemma strip_before_sub_runs:
  "strip_hyphen (sub_runs is_slug_char (strip v)) = strip_hyphen (sub_runs is_slug_char v)"
proof -
  let ?H = "\<lambda>x::pychar. x = 45" and ?R = "sub_runs is_slug_char"
  have "strip_hyphen (?R (strip v)) = rstrip_by ?H (dropWhile ?H (?R (rstrip_by is_space (dropWhile is_space v))))"
    by (simp add: strip_hyphen_def strip_def strip_by_def lstrip_by_def)
  also have "\<dots> = dropWhile ?H (rstrip_by ?H (?R (rstrip_by is_space (dropWhile is_space v))))"
    by (rule strip_commute)
  also have "\<dots> = dropWhile ?H (rstrip_by ?H (?R (dropWhile is_space v)))"
    using space_not_slug_char by (simp add: sub_runs_rstrip)
  also have "\<dots> = rstrip_by ?H (dropWhile ?H (?R (dropWhile is_space v)))"
    by (rule strip_commute [symmetric])
  also have "\<dots> = rstrip_by ?H (dropWhile ?H (?R v))"
    using space_not_slug_char by (simp add: sub_runs_lstrip)
  also have "\<dots> = strip_hyphen (?R v)"
    by (simp add: strip_hyphen_def strip_by_def lstrip_by_def)
  finally show ?thesis .
qed

lemma lower_ascii:
  "\<forall>c \<in> set s. c < 128 \<Longrightarrow> lower s = map ascii_lower_char s"
  by (induction s) (auto simp: lower_def lower_char_def ascii_lower_char_def)

lemma lower_slug_char_ascii_lower:
  "is_lower_slug_char (ascii_lower_char c) = is_slug_char c"
  by (auto simp: is_lower_slug_char_def is_slug_char_def ascii_lower_char_def)

lemma ascii_lower_hyphen: "(ascii_lower_char c = 45) = (c = 45)"
  by (auto simp: ascii_lower_char_def)

lemma sub_runs_map:
  assumes "\<And>c. ok' (f c) = ok c" and "f 45 = 45"
  shows "sub_runs ok' (map f s) = map f (sub_runs ok s)"
  by (induction s rule: induct_list012) (simp_all add: assms)

lemma strip_hyphen_map:
  assumes "\<And>c. (f c = 45) = (c = 45)"
  shows "strip_hyphen (map f x) = map f (strip_hyphen x)"
proof -
  have "(\<lambda>x. x = 45) \<circ> f = (\<lambda>x. x = 45)" using assms by (simp add: fun_eq_iff)
  then have d: "dropWhile (\<lambda>x. x = 45) (map f y) = map f (dropWhile (\<lambda>x. x = 45) y)" for y
    by (simp add: dropWhile_map)
  show ?thesis
    by (simp add: strip_hyphen_def strip_by_def lstrip_by_def rstrip_by_def d rev_map)
qed

lemma set_sub_runs: "set (sub_runs ok s) \<subseteq> insert 45 (set s)"
  by (induction ok s rule: sub_runs.induct) auto

lemma set_strip_hyphen: "set (strip_hyphen x) \<subseteq> set x"
proof -
  have "set (rev (dropWhile P (rev y))) \<subseteq> set y" for P and y :: pystr
    using set_dropWhileD [of _ P "rev y"] by auto
  moreover have "set (dropWhile P y) \<subseteq> set y" for P and y :: pystr
    using set_dropWhileD [of _ P y] by auto
  ultimately show ?thesis
    unfolding strip_hyphen_def strip_by_def lstrip_by_def rstrip_by_def by blast
qed

lemma spec_slug_ascii:
  assumes "\<forall>c \<in> set v. c < 128"
  shows "lower (strip_hyphen (sub_runs is_slug_char v)) = spec_slug v"
proof -
  have "set (strip_hyphen (sub_runs is_slug_char v)) \<subseteq> insert 45 (set v)"
    using set_strip_hyphen [of "sub_runs is_slug_char v"] set_sub_runs [of is_slug_char v] by blast
  with assms have "\<forall>c \<in> set (strip_hyphen (sub_runs is_slug_char v)). c < 128" by auto
  then have "lower (strip_hyphen (sub_runs is_slug_char v))
      = map ascii_lower_char (strip_hyphen (sub_runs is_slug_char v))"
    by (rule lower_ascii)
  also have "\<dots> = strip_hyphen (map ascii_lower_char (sub_runs is_slug_char v))"
    by (simp add: strip_hyphen_map ascii_lower_hyphen)
  also have "map ascii_lower_char (sub_runs is_slug_char v)
      = sub_runs is_lower_slug_char (map ascii_lower_char v)"
  proof (rule sub_runs_map [symmetric])
    show "is_lower_slug_char (ascii_lower_char c) = is_slug_char c" for c
      by (rule lower_slug_char_ascii_lower)
    show "ascii_lower_char 45 = 45" by (simp add: ascii_lower_char_def)
  qed
  also have "map ascii_lower_char v = lower v" using assms by (simp add: lower_ascii)
  finally show ?thesis by (simp add: spec_slug_def)
qed

text \<open>
  Claim C7, as stated, for every input string: it fails at the Kelvin sign
  U+212A. Lowercasing first turns it into \<open>k\<close>, a valid slug, whereas
  \<open>safe_slug\<close> replaces it by a hyphen before it lowercases, is left with the
  empty string, and fails with \<open>InvalidInput\<close>.
\<close>

theorem safe_slug_lowercase_first_counterexample:
  "safe_slug [8490] = Inl InvalidInput \<and> spec_slug [8490] = str ''k''"
  by (simp add: spec_slug_def is_lower_slug_char_def text_evals store_evals)

text \<open>
  Claim C7, amended. For every input string, \<open>safe_slug\<close> produces the string
  obtained by collapsing every maximal run of characters outside
  \<open>[a-zA-Z0-9-]\<close> into a single hyphen, trimming leading and trailing hyphens,
  and lowercasing what is left; it fails with \<open>InvalidInput\<close> exactly when that
  string is empty. (The trimming of surrounding whitespace that the code starts
  with changes nothing: whitespace is outside the class.) For an input of ASCII
  characters this is the string of the specification: lowercase, collapse the
  runs outside \<open>[a-z0-9-]\<close>, trim the hyphens.
\<close>

theorem safe_slug_normal_form:
  "safe_slug v =
     (if lower (strip_hyphen (sub_runs is_slug_char v)) = [] then Inl InvalidInput
      else Inr (lower (strip_hyphen (sub_runs is_slug_char v)))) \<and>
   ((\<forall>c \<in> set v. c < 128) \<longrightarrow>
      safe_slug v = (if spec_slug v = [] then Inl InvalidInput else Inr (spec_slug v)))"
proof -
  have a: "safe_slug v =
     (if lower (strip_hyphen (sub_runs is_slug_char v)) = [] then Inl InvalidInput
      else Inr (lower (strip_hyphen (sub_runs is_slug_char v))))"
    by (simp add: safe_slug_def strip_before_sub_runs Let_def)
  show ?thesis using a spec_slug_ascii [of v] by simp
qed

theorem safe_slug_normal_form_witness:
  "safe_slug (str ''  My Pattern! '') = Inr (str ''my-pattern'') \<and>
   spec_slug (str ''  My Pattern! '') = str ''my-pattern''"
proof -
  have h: "\<forall>c \<in> set (str ''  My Pattern! ''). c < 128" by (simp add: str_def)
  have ev: "spec_slug (str ''  My Pattern! '') = str ''my-pattern''"
    by (simp add: spec_slug_def is_lower_slug_char_def text_evals)
  from safe_slug_normal_form [of "str ''  My Pattern! ''"] h
  have "safe_slug (str ''  My Pattern! '') =
      (if spec_slug (str ''  My Pattern! '') = [] then Inl InvalidInput
       else Inr (spec_slug (str ''  My Pattern! '')))" by blast
  with ev show ?thesis by (simp add: str_def)
qed

subsection \<open>Duplicate field lines\<close>

lemma parse_loop_map:
  "i \<le> length lines \<Longrightarrow>
     parse_loop lines i [] =
       map (entry_at lines) (filter (\<lambda>m. header_match (lines ! m) \<noteq> None) [i ..< length lines])"
proof (induction "length lines - i" arbitrary: i rule: less_induct)
  case less
  let ?P = "\<lambda>m. header_match (lines ! m) \<noteq> None"
  show ?case
  proof (cases "i < length lines")
    case False
    then show ?thesis by (simp add: parse_loop_end)
  next
    case True
    then have up: "[i ..< length lines] = i # [i + 1 ..< length lines]"
      by (simp add: upt_conv_Cons)
    show ?thesis
    proof (cases "header_match (lines ! i)")
      case None
      have "length lines - (i + 1) < length lines - i" using True by simp
      moreover have "i + 1 \<le> length lines" using True by simp
      ultimately have "parse_loop lines (i + 1) [] =
          map (entry_at lines) (filter ?P [i + 1 ..< length lines])" by (rule less.hyps)
      then show ?thesis using True None up by (simp add: parse_loop_skip)
    next
      case (Some p)
      obtain ts ttl where p: "header_match (lines ! i) = Some (ts, ttl)"
        using Some by (cases p) simp
      let ?j = "scan_end lines (i + 1)"
      have ge: "i + 1 \<le> ?j" by (rule scan_end_ge)
      have le: "?j \<le> length lines" using True by (intro scan_end_le) simp
      have m: "length lines - ?j < length lines - i" using True ge by simp
      have rest: "parse_loop lines ?j [] = map (entry_at lines) (filter ?P [?j ..< length lines])"
        using m le by (rule less.hyps)
      have "[i + 1 ..< length lines] = [i + 1 ..< ?j] @ [?j ..< length lines]"
        using ge le by (metis le_Suc_ex upt_add_eq_append)
      moreover have "filter ?P [i + 1 ..< ?j] = []"
        using scan_end_skips [of "i + 1" _ lines] by (intro filter_upt_none) simp
      ultimately have f: "filter ?P [i ..< length lines] = i # filter ?P [?j ..< length lines]"
        using up p by simp
      have "entry_at lines i = make_entry lines i ?j ts ttl" using p by (simp add: entry_at_def)
      then show ?thesis using True p rest f by (simp add: parse_loop_header_Cons)
    qed
  qed
qed

lemma parse_entries_map:
  "parse_entries lines =
     map (entry_at lines) (filter (\<lambda>m. header_match (lines ! m) \<noteq> None) [0 ..< length lines])"
  unfolding parse_entries_def by (rule parse_loop_map) simp

lemma scan_end_cong:
  assumes "length ls' = length ls"
    and "\<And>m. m < length ls \<Longrightarrow> (header_match (ls' ! m) = None) = (header_match (ls ! m) = None)"
  shows "scan_end ls' j = scan_end ls j"
proof (induction "length ls - j" arbitrary: j rule: less_induct)
  case less
  show ?case
  proof (cases "j < length ls \<and> header_match (ls ! j) = None")
    case True
    then have "length ls - (j + 1) < length ls - j" by auto
    then have "scan_end ls' (j + 1) = scan_end ls (j + 1)" by (rule less.hyps)
    moreover have "scan_end ls j = scan_end ls (j + 1)"
      using True by (subst scan_end.simps) simp
    moreover have "scan_end ls' j = scan_end ls' (j + 1)"
      using True assms by (subst scan_end.simps) simp
    ultimately show ?thesis by simp
  next
    case False
    then have "scan_end ls j = j" by (subst scan_end.simps) auto
    moreover have "scan_end ls' j = j" using False assms by (subst scan_end.simps) auto
    ultimately show ?thesis by simp
  qed
qed

lemma entry_at_keeps:
  "header_index (entry_at lines h) = h"
  "end_index (entry_at lines h) = scan_end lines (h + 1)"
  by (simp_all add: entry_at_def make_entry_keeps split: option.splits)

lemma key_names_distinct:
  "distinct [str ''fingerprint'', str ''source'', str ''status'', str ''details'', str ''reviewNote'']"
  by (simp add: str_def)

lemma get_field_assign_other:
  "key \<noteq> K \<Longrightarrow> get_field K (assign_kv key v e) = get_field K e"
  using key_names_distinct by (auto simp: get_field_def assign_kv_def)

lemma get_field_assign_same:
  "K \<in> {str ''fingerprint'', str ''source'', str ''status'', str ''details'', str ''reviewNote''}
     \<Longrightarrow> get_field K (assign_kv K v e) = Some v"
  using key_names_distinct by (auto simp: get_field_def assign_kv_def)

lemma field_step_other:
  "\<forall>w. kv_match (L ! k) \<noteq> Some (K, w) \<Longrightarrow> get_field K (field_step L k e) = get_field K e"
  by (auto simp: field_step_def get_field_assign_other split: option.splits)

lemma fold_field_step_other:
  "\<forall>k \<in> set ks. \<forall>w. kv_match (L ! k) \<noteq> Some (K, w) \<Longrightarrow>
     get_field K (fold (field_step L) ks e) = get_field K e"
  by (induction ks arbitrary: e) (simp_all add: field_step_other)

lemma make_entry_last_field:
  assumes K: "K \<in> {str ''fingerprint'', str ''source'', str ''status'', str ''details'', str ''reviewNote''}"
    and "h < j0" and "j0 < e"
    and kv: "kv_match (L ! j0) = Some (K, v0)"
    and later: "\<forall>m w. j0 < m \<and> m < e \<longrightarrow> kv_match (L ! m) \<noteq> Some (K, w)"
  shows "get_field K (make_entry L h e ts ttl) = Some v0"
proof -
  have "[h + 1 ..< e] = [h + 1 ..< j0] @ j0 # [j0 + 1 ..< e]"
  proof -
    have "[h + 1 ..< e] = [h + 1 ..< j0] @ [j0 ..< e]"
      using assms(2,3) by (metis Suc_eq_plus1 Suc_leI le_Suc_ex less_imp_le_nat upt_add_eq_append)
    moreover have "[j0 ..< e] = j0 # [j0 + 1 ..< e]" using assms(3) by (simp add: upt_conv_Cons)
    ultimately show ?thesis by simp
  qed
  then have "make_entry L h e ts ttl =
      fold (field_step L) [j0 + 1 ..< e]
        (field_step L j0 (fold (field_step L) [h + 1 ..< j0]
           \<lparr>header_index = h, end_index = e, timestamp = ts, title = ttl,
            fingerprint = None, source = None, status = None, details = None,
            review_note = None\<rparr>))"
    by (simp add: make_entry_def)
  moreover have "\<forall>k \<in> set [j0 + 1 ..< e]. \<forall>w. kv_match (L ! k) \<noteq> Some (K, w)"
    using later by simp
  moreover have "get_field K (field_step L j0 x) = Some v0" for x
    using kv K by (simp add: field_step_def get_field_assign_same)
  ultimately show ?thesis by (simp add: fold_field_step_other)
qed

lemma startswith_iff: "startswith s t \<longleftrightarrow> (\<exists>r. s = t @ r)"
proof
  assume "startswith s t"
  then have "s = t @ drop (length t) s"
    unfolding startswith_def by (metis append_take_drop_id)
  then show "\<exists>r. s = t @ r" ..
next
  assume "\<exists>r. s = t @ r"
  then show "startswith s t" by (auto simp: startswith_def)
qed

lemma kv_match_startswith:
  assumes "kv_match l = Some (key, v)"
  shows "startswith l (kv_target key)"
proof -
  let ?rest = "drop 4 l"
  from assms have a: "startswith l (str ''  - '')"
    and b: "key = takeWhile is_key_char ?rest"
    and c: "startswith (dropWhile is_key_char ?rest) (str '': '')"
    by (auto simp: kv_match_def Let_def split: if_splits option.splits)
  from a obtain r where r: "l = str ''  - '' @ r" by (auto simp: startswith_iff)
  then have "?rest = r" by (simp add: str_def)
  moreover from c obtain r' where "dropWhile is_key_char ?rest = str '': '' @ r'"
    by (auto simp: startswith_iff)
  ultimately have "r = key @ str '': '' @ r'" using b by (metis takeWhile_dropWhile_id)
  with r have "l = kv_target key @ r'" by (simp add: kv_target_def)
  then show ?thesis by (auto simp: startswith_iff)
qed

lemma target_not_header:
  assumes "startswith l (kv_target key)"
  shows "header_match l = None"
proof -
  from assms obtain r where "l = kv_target key @ r" by (auto simp: startswith_iff)
  then have "\<not> startswith l (str ''- ['')"
    by (simp add: startswith_def kv_target_def str_def)
  then show ?thesis by (simp add: header_match_def)
qed

lemma kv_match_target:
  assumes K: "K \<in> {str ''fingerprint'', str ''source'', str ''status'', str ''details'', str ''reviewNote''}"
    and s: "startswith l (kv_target K)" and nl: "10 \<notin> set l"
  shows "\<exists>w. kv_match l = Some (K, w)"
proof -
  from s obtain r where l: "l = kv_target K @ r" by (auto simp: startswith_iff)
  with nl have r: "10 \<notin> set r" by simp
  from K consider "K = str ''fingerprint''" | "K = str ''source''" | "K = str ''status''"
    | "K = str ''details''" | "K = str ''reviewNote''" by auto
  then have "kv_match (kv_target K @ r) = Some (K, r)"
    using r by cases (simp_all add: kv_match_def kv_target_def startswith_def str_def
        is_key_char_def dot_star_eol_def)
  with l show ?thesis by simp
qed

text \<open>
  Claim C10. When the span of a parsed record holds two field lines with the
  same recognized key, \<open>update_or_insert_kv\<close> replaces one line only, the first
  line of the span that starts with the key's prefix (no field line with the key
  precedes it, and it is itself such a field line when it holds no newline); a
  later field line with the key stays as it is. The parser lets the last field
  line of a key win, so parsing the updated lines gives the record the same
  value for the key as before, the value of that last line, whatever value was
  written.
\<close>

theorem duplicate_field_lines:
  assumes k: "k < length (parse_entries lines)"
    and K: "key \<in> {str ''fingerprint'', str ''source'', str ''status'', str ''details'',
                  str ''reviewNote''}"
    and hi: "header_index (parse_entries lines ! k) < i"
    and ij: "i < j"
    and je: "j < end_index (parse_entries lines ! k)"
    and kvi: "kv_match (lines ! i) = Some (key, vi)"
    and kvj: "kv_match (lines ! j) = Some (key, vj)"
  shows "\<exists>i0 j0 v0.
      update_or_insert_kv lines (parse_entries lines ! k) key v
        = Inr (lines[i0 := kv_target key @ v]) \<and>
      header_index (parse_entries lines ! k) < i0 \<and> i0 \<le> i \<and>
      startswith (lines ! i0) (kv_target key) \<and>
      (10 \<notin> set (lines ! i0) \<longrightarrow> (\<exists>w. kv_match (lines ! i0) = Some (key, w))) \<and>
      (\<forall>m w. header_index (parse_entries lines ! k) < m \<and> m < i0 \<longrightarrow>
          kv_match (lines ! m) \<noteq> Some (key, w)) \<and>
      i0 < j0 \<and> j0 < end_index (parse_entries lines ! k) \<and>
      kv_match (lines ! j0) = Some (key, v0) \<and>
      (\<forall>m w. j0 < m \<and> m < end_index (parse_entries lines ! k) \<longrightarrow>
          kv_match (lines ! m) \<noteq> Some (key, w)) \<and>
      (lines[i0 := kv_target key @ v]) ! j0 = lines ! j0 \<and>
      length (parse_entries (lines[i0 := kv_target key @ v])) = length (parse_entries lines) \<and>
      get_field key (parse_entries lines ! k) = Some v0 \<and>
      get_field key (parse_entries (lines[i0 := kv_target key @ v]) ! k) = Some v0"
proof -
  let ?es = "parse_entries lines"
  let ?h = "header_index (?es ! k)" and ?e = "end_index (?es ! k)"
  let ?T = "kv_target key"
  let ?S = "\<lambda>m. startswith (lines ! m) ?T"
  have sp: "spans_from lines 0 ?es"
    unfolding parse_entries_def by (rule parse_loop_spans_from)
  from spans_from_nth [OF sp k] have he: "?h < ?e" and el: "?e \<le> length lines"
    and hh: "header_match (lines ! ?h) \<noteq> None" by simp_all
  \<comment> \<open>the line that is replaced\<close>
  have si: "?S i" using kvi by (rule kv_match_startswith)
  have "?h + 1 \<le> i \<and> i < ?e \<and> ?S i" using si hi ij je by simp
  then have "List.find ?S [?h + 1 ..< ?e] \<noteq> None"
    unfolding find_upt_None by blast
  then obtain i0 where f: "List.find ?S [?h + 1 ..< ?e] = Some i0" by auto
  then have i0: "?h + 1 \<le> i0" "i0 < ?e" "?S i0"
    and first: "\<forall>m. ?h + 1 \<le> m \<and> m < i0 \<longrightarrow> \<not> ?S m"
    by (simp_all add: find_upt_Some)
  have i0i: "i0 \<le> i"
  proof (rule ccontr)
    assume "\<not> i0 \<le> i"
    with hi first have "\<not> ?S i" by simp
    with si show False by simp
  qed
  let ?L = "lines[i0 := ?T @ v]"
  have upd: "update_or_insert_kv lines (?es ! k) key v = Inr ?L"
    using f el by (simp add: update_or_insert_kv_def find_target_upt)
  have before: "\<forall>m w. ?h < m \<and> m < i0 \<longrightarrow> kv_match (lines ! m) \<noteq> Some (key, w)"
  proof (intro allI impI notI)
    fix m w assume m: "?h < m \<and> m < i0" and "kv_match (lines ! m) = Some (key, w)"
    then have "?S m" by (simp add: kv_match_startswith)
    with first m show False by simp
  qed
  have field0: "10 \<notin> set (lines ! i0) \<longrightarrow> (\<exists>w. kv_match (lines ! i0) = Some (key, w))"
    using kv_match_target [OF K i0(3)] by blast
  \<comment> \<open>the last field line with the key\<close>
  let ?D = "{m. i < m \<and> m < ?e \<and> (\<exists>w. kv_match (lines ! m) = Some (key, w))}"
  have fin: "finite ?D" by simp
  have jD: "j \<in> ?D" using ij je kvj by simp
  define j0 where "j0 = Max ?D"
  have "j0 \<in> ?D" unfolding j0_def using fin jD by (intro Max_in) auto
  then have j0: "i < j0" "j0 < ?e" and "\<exists>w. kv_match (lines ! j0) = Some (key, w)" by simp_all
  then obtain v0 where kv0: "kv_match (lines ! j0) = Some (key, v0)" by auto
  have later: "\<forall>m w. j0 < m \<and> m < ?e \<longrightarrow> kv_match (lines ! m) \<noteq> Some (key, w)"
  proof (intro allI impI notI)
    fix m w assume m: "j0 < m \<and> m < ?e" and "kv_match (lines ! m) = Some (key, w)"
    with j0(1) have "m \<in> ?D" by simp
    then have "m \<le> j0" unfolding j0_def using fin by (intro Max_ge)
    with m show False by simp
  qed
  have i0j0: "i0 < j0" using i0i j0(1) by simp
  have hj0: "?h < j0" using i0(1) i0j0 by simp
  \<comment> \<open>the two documents have the same header lines\<close>
  have nth: "m \<noteq> i0 \<Longrightarrow> ?L ! m = lines ! m" for m by simp
  have i0len: "i0 < length lines" using i0(2) el by simp
  have "header_match (lines ! i0) = None" using i0(3) by (rule target_not_header)
  moreover have "header_match (?T @ v) = None"
    by (rule target_not_header [of _ key]) (simp add: startswith_def)
  ultimately have hm: "header_match (?L ! m) = header_match (lines ! m)" for m
    using i0len by (cases "m = i0") simp_all
  have len: "length ?L = length lines" by simp
  let ?hs = "filter (\<lambda>m. header_match (lines ! m) \<noteq> None) [0 ..< length lines]"
  have es: "?es = map (entry_at lines) ?hs" by (rule parse_entries_map)
  have es': "parse_entries ?L = map (entry_at ?L) ?hs"
    by (simp add: parse_entries_map [of ?L] hm)
  have klen: "k < length ?hs" using k es by (metis length_map)
  have ek: "?es ! k = entry_at lines (?hs ! k)" using klen by (subst es) simp
  have ek': "parse_entries ?L ! k = entry_at ?L (?hs ! k)" using klen by (subst es') simp
  have hk: "?hs ! k = ?h" by (simp add: ek entry_at_keeps)
  have ee: "scan_end lines (?h + 1) = ?e" using ek hk by (metis entry_at_keeps(2))
  have se: "scan_end ?L (?h + 1) = ?e"
    using scan_end_cong [of ?L lines "?h + 1"] hm ee by simp
  from hh obtain ts ttl where hts: "header_match (lines ! ?h) = Some (ts, ttl)" by auto
  have a: "?es ! k = make_entry lines ?h ?e ts ttl"
    using ek hk hts ee by (simp add: entry_at_def)
  have b: "parse_entries ?L ! k = make_entry ?L ?h ?e ts ttl"
    using ek' hk hts se hm [of ?h] by (simp add: entry_at_def)
  \<comment> \<open>the last field line decides, before and after\<close>
  have g: "get_field key (make_entry lines ?h ?e ts ttl) = Some v0"
    using K hj0 j0(2) kv0 later by (rule make_entry_last_field)
  have kv0': "kv_match (?L ! j0) = Some (key, v0)" using kv0 i0j0 by simp
  have later': "\<forall>m w. j0 < m \<and> m < ?e \<longrightarrow> kv_match (?L ! m) \<noteq> Some (key, w)"
    using later i0j0 by simp
  have g': "get_field key (make_entry ?L ?h ?e ts ttl) = Some v0"
    using K hj0 j0(2) kv0' later' by (rule make_entry_last_field)
  have same: "?L ! j0 = lines ! j0" using i0j0 by simp
  have lens: "length (parse_entries ?L) = length ?es" by (simp add: es es')
  have hi0: "?h < i0" using i0(1) by simp
  from upd hi0 i0i i0(3) field0 before i0j0 j0(2) kv0 later same lens g g' a b
  show ?thesis by (metis (no_types, lifting))
qed

theorem duplicate_field_lines_witness:
  "kv_match ([str ''- [t] One'', str ''  - status: pending'', str ''  - status: approved''] ! 1)
     = Some (str ''status'', str ''pending'') \<and>
   kv_match ([str ''- [t] One'', str ''  - status: pending'', str ''  - status: approved''] ! 2)
     = Some (str ''status'', str ''approved'') \<and>
   update_or_insert_kv [str ''- [t] One'', str ''  - status: pending'', str ''  - status: approved'']
     (parse_entries [str ''- [t] One'', str ''  - status: pending'', str ''  - status: approved''] ! 0)
     (str ''status'') (str ''rejected'')
     = Inr [str ''- [t] One'', str ''  - status: rejected'', str ''  - status: approved''] \<and>
   get_field (str ''status'')
     (parse_entries [str ''- [t] One'', str ''  - status: rejected'', str ''  - status: approved''] ! 0)
     = Some (str ''approved'')"
proof -
  let ?L = "[str ''- [t] One'', str ''  - status: pending'', str ''  - status: approved'']"
  let ?L1 = "[str ''- [t] One'', str ''  - status: rejected'', str ''  - status: approved'']"
  let ?K = "str ''status''"
  have ev: "parse_entries ?L =
     [\<lparr>header_index = 0, end_index = 3, timestamp = str ''t'', title = str ''One'',
       fingerprint = None, source = None, status = Some (str ''approved''), details = None,
       review_note = None\<rparr>]"
    by (simp add: text_evals parse_evals upt_conv_Cons)
  have h1: "0 < length (parse_entries ?L)" by (simp add: ev)
  have h2: "?K \<in> {str ''fingerprint'', str ''source'', str ''status'', str ''details'',
                  str ''reviewNote''}" by simp
  have h3: "header_index (parse_entries ?L ! 0) < 1" by (simp add: ev)
  have h4: "(1::nat) < 2" by simp
  have h5: "2 < end_index (parse_entries ?L ! 0)" by (simp add: ev)
  have h6: "kv_match (?L ! 1) = Some (?K, str ''pending'')" by (simp add: text_evals)
  have h7: "kv_match (?L ! 2) = Some (?K, str ''approved'')" by (simp add: text_evals)
  have u: "update_or_insert_kv ?L (parse_entries ?L ! 0) ?K (str ''rejected'') = Inr ?L1"
    by (simp add: ev) (simp add: store_evals text_evals upt_conv_Cons)
  have g: "get_field ?K (parse_entries ?L ! 0) = Some (str ''approved'')"
    by (simp add: ev get_field_def) (simp add: str_def)
  from duplicate_field_lines [OF h1 h2 h3 h4 h5 h6 h7, of "str ''rejected''"]
  obtain i0 v0 where
    a: "update_or_insert_kv ?L (parse_entries ?L ! 0) ?K (str ''rejected'')
          = Inr (?L[i0 := kv_target ?K @ str ''rejected''])"
    and b: "get_field ?K (parse_entries ?L ! 0) = Some v0"
    and c: "get_field ?K (parse_entries (?L[i0 := kv_target ?K @ str ''rejected'']) ! 0) = Some v0"
    by blast
  from a u have "?L[i0 := kv_target ?K @ str ''rejected''] = ?L1" by simp
  moreover from b g have "v0 = str ''approved''" by simp
  ultimately have "get_field ?K (parse_entries ?L1 ! 0) = Some (str ''approved'')"
    using c by simp
  with h6 h7 u show ?thesis by blast
qed

end
